theory Spec2Isabelle
  imports Main "HOL-Library.Multiset" "HOL-Library.AList"
begin

section \<open>The image scraper of the perfume catalogue\<close>

text \<open>
  The development embeds \<^verbatim>\<open>scrape_images.py\<close>: the extraction of an image address
  from a page (\<^verbatim>\<open>extract_image_url\<close>), the fetch of one page with its bounded
  retries (\<^verbatim>\<open>fetch_image_url\<close>) and the run over the catalogue (\<^verbatim>\<open>main\<close>).

  What the program does to the outside is written into a \<open>world\<close>: the two files it
  reads and writes, and the chronological list of the requests it sent, the sleeps it
  took and the documents it wrote. What the outside does to the program is an argument:
  the transport answers a request from the history so far and the address, and the
  random source of \<^verbatim>\<open>random.shuffle\<close> is a function from the bound to the draw.
  Durations are floating point sums with random jitter; a sleep is recorded with its
  reason only. Progress lines on the standard output are not part of the world, and
  neither is an interrupt of the process from outside (which is no exception of the
  transport or of the extraction, and ends the run wherever it is).

  A Python \<^verbatim>\<open>str\<close> is modelled as a \<open>string\<close>, a Python \<^verbatim>\<open>int\<close> as an \<open>int\<close>.
\<close>

subsection \<open>Exceptions, documents, events\<close>

text \<open>
  The exceptions a handler of the program tells apart: \<^verbatim>\<open>urllib.error.HTTPError\<close> with
  its status code, and every other subclass of \<^verbatim>\<open>Exception\<close>, by its class name.
\<close>

datatype exc = HTTPError int | OtherException string

text \<open>
  A JSON document, as \<^verbatim>\<open>json.load\<close> returns it and \<^verbatim>\<open>json.dump\<close> writes it. An
  object keeps its members in the order of the text, repeated keys included. The
  serialisation itself is the library's: a file is modelled by the document its text
  denotes, or as \<open>Refused\<close> when the text denotes none.
\<close>

datatype json =
    JNull
  | JBool bool
  | JNum int
  | JStr string
  | JArr "json list"
  | JObj "(string \<times> json) list"

text \<open>
  What a file holds: \<open>Doc v\<close> when reading it gives the value \<open>v\<close>, and
  \<open>Refused name\<close> when reading it raises the exception of that class
  (\<^verbatim>\<open>UnicodeDecodeError\<close> for bytes that are no text, \<^verbatim>\<open>JSONDecodeError\<close> for text that is
  no JSON document). A file that does not exist is \<open>None\<close> in the world.
\<close>

datatype 'a content = Refused string | Doc 'a

text \<open>A Python \<^verbatim>\<open>dict\<close> with string keys: its items in insertion order, keys distinct.\<close>

type_synonym dict = "(string \<times> json) list"

datatype sleep = Settle | Delay | Backoff int | Cooldown

datatype event =
    WarmupRequest
  | FetchRequest string int
  | Sleep sleep
  | Flush dict

text \<open>
  One record of the catalogue, read through \<^verbatim>\<open>item.get('canonical_url')\<close>: the field is
  absent or null (\<open>None\<close>) or a string. The catalogue is a list of such records; a
  catalogue file of any other shape is \<open>Refused\<close>, with the exception that the loop
  over it raises.
\<close>

record item =
  canonical_url :: "string option"

record world =
  catalog_file :: "item list content option"
  output_file :: "json content option"
  trace :: "event list"

type_synonym transport = "event list \<Rightarrow> string \<Rightarrow> exc + string"

type_synonym extractor = "string \<Rightarrow> exc + string option"

definition BATCH_SAVE_EVERY :: int where
  "BATCH_SAVE_EVERY = 20"

definition MAX_RETRIES :: int where
  "MAX_RETRIES = 2"

definition log_event :: "event \<Rightarrow> world \<Rightarrow> world" where
  "log_event e w = w\<lparr>trace := trace w @ [e]\<rparr>"

subsection \<open>fetch_image_url\<close>

text \<open>
  The body of the \<^verbatim>\<open>try\<close> block of \<^verbatim>\<open>fetch_image_url\<close>: one request through the
  opener; the page that comes back is decoded and handed to the extraction. Whatever
  \<^verbatim>\<open>Request\<close>, \<^verbatim>\<open>opener.open\<close>, \<^verbatim>\<open>read\<close> or \<^verbatim>\<open>close\<close> raise is the transport's
  answer \<open>Inl e\<close>; whatever the extraction raises is raised from the same block.
\<close>

definition fetch_attempt ::
  "transport \<Rightarrow> extractor \<Rightarrow> string \<Rightarrow> int \<Rightarrow> world \<Rightarrow> (exc + string option) \<times> world" where
  "fetch_attempt tr ex url attempt w =
     (let w1 = log_event (FetchRequest url attempt) w in
      case tr (trace w) url of
        Inl e \<Rightarrow> (Inl e, w1)
      | Inr html \<Rightarrow> (ex html, w1))"

text \<open>
  \<^verbatim>\<open>
  def fetch_image_url(canonical_url, attempt=0):
      try:
          ...
          return extract_image_url(html)
      except HTTPError as e:
          if (e.code == 429 or e.code == 403) and attempt < MAX_RETRIES:
              wait = (2 ** attempt) * 10 + random.uniform(2, 8)
              time.sleep(wait)
              return fetch_image_url(canonical_url, attempt + 1)
          return None
      except Exception:
          return None
  \<close>
  The result is a sum, so that an exception leaving the function would be a value
  \<open>Inl e\<close> of the model: the recursive call stands in a handler, outside the
  \<^verbatim>\<open>try\<close> block, and what it raised would not be caught here.
\<close>

function fetch_image_url ::
  "transport \<Rightarrow> extractor \<Rightarrow> string \<Rightarrow> int \<Rightarrow> world \<Rightarrow> (exc + string option) \<times> world" where
  "fetch_image_url tr ex url attempt w =
     (case fetch_attempt tr ex url attempt w of
        (Inr img, w1) \<Rightarrow> (Inr img, w1)
      | (Inl (HTTPError code), w1) \<Rightarrow>
          if (code = 429 \<or> code = 403) \<and> attempt < MAX_RETRIES
          then fetch_image_url tr ex url (attempt + 1) (log_event (Sleep (Backoff attempt)) w1)
          else (Inr None, w1)
      | (Inl (OtherException name), w1) \<Rightarrow> (Inr None, w1))"
  by pat_completeness auto
termination
  by (relation "measure (\<lambda>(tr, ex, url, attempt, w). nat (MAX_RETRIES - attempt))") auto

text \<open>The number of requests for pages in a list of events.\<close>

fun is_fetch :: "event \<Rightarrow> bool" where
  "is_fetch (FetchRequest url attempt) = True"
| "is_fetch e = False"

definition fetches :: "event list \<Rightarrow> nat" where
  "fetches es = length (filter is_fetch es)"

text \<open>The events a computation added to the history it started from.\<close>

definition added :: "world \<Rightarrow> world \<Rightarrow> event list" where
  "added w w' = drop (length (trace w)) (trace w')"

subsection \<open>extract_image_url\<close>

text \<open>
  The patterns of \<^verbatim>\<open>extract_image_url\<close> use literal text, character classes, a
  greedy \<^verbatim>\<open>+\<close> or \<^verbatim>\<open>*\<close> over a class, alternatives and one capturing group.
  \<open>matches r s g\<close> lists, in the order in which a backtracking matcher tries them, the
  ways \<open>r\<close> matches a prefix of \<open>s\<close>: what is left of \<open>s\<close>, and the text of group 1
  (\<open>g\<close> before the match). A page is a list of characters with codes below 256.
\<close>

datatype cls = Among "char list" | Except "char list"

fun in_cls :: "cls \<Rightarrow> char \<Rightarrow> bool" where
  "in_cls (Among cs) c = (c \<in> set cs)"
| "in_cls (Except cs) c = (c \<notin> set cs)"

datatype rx =
    Str string
  | One cls
  | Plus cls
  | Star cls
  | Seq rx rx
  | Alt rx rx
  | Grp rx

primrec matches :: "rx \<Rightarrow> string \<Rightarrow> string option \<Rightarrow> (string \<times> string option) list" where
  "matches (Str lit) s g = (if take (length lit) s = lit then [(drop (length lit) s, g)] else [])"
| "matches (One c) s g =
     (case s of [] \<Rightarrow> [] | x # xs \<Rightarrow> if in_cls c x then [(xs, g)] else [])"
| "matches (Plus c) s g =
     map (\<lambda>n. (drop n s, g)) (rev [1 ..< Suc (length (takeWhile (in_cls c) s))])"
| "matches (Star c) s g =
     map (\<lambda>n. (drop n s, g)) (rev [0 ..< Suc (length (takeWhile (in_cls c) s))])"
| "matches (Seq a b) s g =
     concat (map (\<lambda>(s', g'). matches b s' g') (matches a s g))"
| "matches (Alt a b) s g = matches a s g @ matches b s g"
| "matches (Grp a) s g =
     map (\<lambda>(s', g'). (s', Some (take (length s - length s') s))) (matches a s g)"

text \<open>
  \<^verbatim>\<open>re.search\<close>: the first match at the leftmost position that has one. The result
  is \<open>None\<close> when there is no match, and otherwise what \<^verbatim>\<open>group(1)\<close> of the match
  returns: \<open>None\<close> for a group that took no part in it.
\<close>

fun re_search :: "rx \<Rightarrow> string \<Rightarrow> string option option" where
  "re_search r [] = (case matches r [] None of [] \<Rightarrow> None | (rest, g) # ms \<Rightarrow> Some g)"
| "re_search r (c # s) =
     (case matches r (c # s) None of [] \<Rightarrow> re_search r s | (rest, g) # ms \<Rightarrow> Some g)"

text \<open>The operator \<^verbatim>\<open>in\<close> on two strings.\<close>

fun contains :: "string \<Rightarrow> string \<Rightarrow> bool" where
  "contains [] sub = (sub = [])"
| "contains (c # s) sub = (take (length sub) (c # s) = sub \<or> contains s sub)"

definition seqs :: "rx list \<Rightarrow> rx" where
  "seqs rs = foldr Seq rs (Str [])"

definition quotes :: "char list" where
  "quotes = [CHR 0x22, CHR 0x27]"

text \<open>The characters \<^verbatim>\<open>\s\<close> matches in a \<^verbatim>\<open>str\<close> pattern, among the codes below 256.\<close>

definition whitespace :: "char list" where
  "whitespace = [CHR 0x09, CHR 0x0A, CHR 0x0B, CHR 0x0C, CHR 0x0D, CHR 0x1C, CHR 0x1D,
     CHR 0x1E, CHR 0x1F, CHR 0x20, CHR 0x85, CHR 0xA0]"

definition image_suffix :: rx where
  "image_suffix = Alt (Str ''jpg'') (Alt (Str ''png'') (Str ''webp''))"

definition og_pattern :: rx where
  "og_pattern = seqs [Str ''<meta'', Plus (Among whitespace), Str ''property='',
     One (Among quotes), Str ''og:image'', One (Among quotes), Plus (Among whitespace),
     Str ''content='', One (Among quotes), Grp (Plus (Except quotes)), One (Among quotes)]"

definition fallback_patterns :: "rx list" where
  "fallback_patterns =
    [Grp (seqs [Str ''https://media.parfumo.com/perfume_social/'',
        Plus (Except (quotes @ whitespace)), Str ''.'', image_suffix,
        Star (Except (quotes @ whitespace))]),
     Grp (seqs [Str ''https://media.parfumo.com/perfumes/'',
        Plus (Except (quotes @ whitespace)), Str ''.'', image_suffix,
        Star (Except (quotes @ whitespace))]),
     Grp (seqs [Str ''https://images.parfumo.de/perfume_bottle/'',
        Plus (Except (quotes @ whitespace)), Str ''.'', image_suffix])]"

text \<open>The \<^verbatim>\<open>for pattern in [...]\<close> loop: the first pattern that matches decides.\<close>

fun first_match :: "rx list \<Rightarrow> string \<Rightarrow> exc + string option" where
  "first_match [] html = Inr None"
| "first_match (p # ps) html =
     (case re_search p html of None \<Rightarrow> first_match ps html | Some g \<Rightarrow> Inr g)"

text \<open>
  \<^verbatim>\<open>
  og_match = re.search(r'<meta\s+property=["\']og:image["\']\s+content=["\']([^"\']+)["\']', html)
  if og_match:
      url = og_match.group(1)
      if '404' not in url and 'parfumo' in url:
          return url
  for pattern in [...]: ...
  return None
  \<close>
  \<^verbatim>\<open>'404' not in url\<close> raises a \<^verbatim>\<open>TypeError\<close> when \<^verbatim>\<open>url\<close> is \<^verbatim>\<open>None\<close>.
\<close>

definition extract_image_url :: extractor where
  "extract_image_url html =
     (case re_search og_pattern html of
        None \<Rightarrow> first_match fallback_patterns html
      | Some None \<Rightarrow> Inl (OtherException ''TypeError'')
      | Some (Some url) \<Rightarrow>
          if \<not> contains url ''404'' \<and> contains url ''parfumo'' then Inr (Some url)
          else first_match fallback_patterns html)"

subsection \<open>main\<close>

text \<open>
  \<^verbatim>\<open>random.shuffle\<close>, as the library writes it:
  \<^verbatim>\<open>
  for i in reversed(range(1, len(x))):
      j = randbelow(i + 1)
      x[i], x[j] = x[j], x[i]
  \<close>
  \<open>rnd n\<close> stands for the draw \<^verbatim>\<open>randbelow(n)\<close>, reduced below \<open>n\<close>.
\<close>

fun shuffle_from :: "(nat \<Rightarrow> nat) \<Rightarrow> nat \<Rightarrow> 'a list \<Rightarrow> 'a list" where
  "shuffle_from rnd 0 xs = xs"
| "shuffle_from rnd (Suc i) xs =
     (let j = rnd (Suc i + 1) mod (Suc i + 1)
      in shuffle_from rnd i (xs[Suc i := xs ! j, j := xs ! Suc i]))"

definition shuffle :: "(nat \<Rightarrow> nat) \<Rightarrow> 'a list \<Rightarrow> 'a list" where
  "shuffle rnd xs = shuffle_from rnd (length xs - 1) xs"

text \<open>
  \<^verbatim>\<open>
  urls = set()
  for item in data:
      if item.get('canonical_url'):
          urls.add(item['canonical_url'])
  \<close>
  The set is a list without repetitions. The order in which Python iterates over it is
  not fixed by the language; it is shuffled before it is used.
\<close>

definition catalog_urls :: "item list \<Rightarrow> string list" where
  "catalog_urls data =
     remdups (concat (map (\<lambda>item. case canonical_url item of
                                     None \<Rightarrow> []
                                   | Some u \<Rightarrow> if u \<noteq> [] then [u] else []) data))"

definition load_catalog :: "world \<Rightarrow> exc + item list" where
  "load_catalog w =
     (case catalog_file w of
        None \<Rightarrow> Inl (OtherException ''FileNotFoundError'')
      | Some (Refused name) \<Rightarrow> Inl (OtherException name)
      | Some (Doc data) \<Rightarrow> Inr data)"

text \<open>
  The \<^verbatim>\<open>dict\<close> that \<^verbatim>\<open>json.load\<close> builds from the members of an object: a repeated key
  keeps its first place and takes its last value.
\<close>

definition dict_of_pairs :: "(string \<times> json) list \<Rightarrow> dict" where
  "dict_of_pairs kvs = foldl (\<lambda>d (k, v). AList.update k v d) [] kvs"

text \<open>
  \<^verbatim>\<open>
  existing = {}
  if os.path.exists(OUTPUT_PATH):
      with open(OUTPUT_PATH) as f:
          raw = json.load(f)
      existing = {k: v for k, v in raw.items() if v is not None}
  \<close>
  \<open>load_raw\<close> is \<open>raw\<close> (empty when there is no file); a document that is no object
  has no \<^verbatim>\<open>items\<close>.
\<close>

definition load_raw :: "world \<Rightarrow> exc + dict" where
  "load_raw w =
     (case output_file w of
        None \<Rightarrow> Inr []
      | Some (Refused name) \<Rightarrow> Inl (OtherException name)
      | Some (Doc (JObj kvs)) \<Rightarrow> Inr (dict_of_pairs kvs)
      | Some (Doc other) \<Rightarrow> Inl (OtherException ''AttributeError''))"

definition resolved_subset :: "dict \<Rightarrow> dict" where
  "resolved_subset raw = filter (\<lambda>(k, v). v \<noteq> JNull) raw"

definition load_existing :: "world \<Rightarrow> exc + dict" where
  "load_existing w =
     (case load_raw w of Inl e \<Rightarrow> Inl e | Inr raw \<Rightarrow> Inr (resolved_subset raw))"

text \<open>\<^verbatim>\<open>to_scrape = [u for u in urls if u not in existing]; random.shuffle(to_scrape)\<close>\<close>

definition to_scrape :: "(nat \<Rightarrow> nat) \<Rightarrow> string list \<Rightarrow> dict \<Rightarrow> string list" where
  "to_scrape rnd urls existing = shuffle rnd (filter (\<lambda>u. u \<notin> fst ` set existing) urls)"

text \<open>
  The warm-up request for the home page, in a \<^verbatim>\<open>try\<close> with a bare \<^verbatim>\<open>except\<close>: it
  sleeps three seconds when the request succeeds and goes on in either case.
\<close>

definition warm_up :: "transport \<Rightarrow> world \<Rightarrow> world" where
  "warm_up tr w =
     (let w1 = log_event WarmupRequest w in
      case tr (trace w) ''https://www.parfumo.com/'' of
        Inl e \<Rightarrow> w1
      | Inr page \<Rightarrow> log_event (Sleep Settle) w1)"

text \<open>\<^verbatim>\<open>json.dump(results, f)\<close> on the output file opened for writing.\<close>

definition flush :: "dict \<Rightarrow> world \<Rightarrow> world" where
  "flush d w = log_event (Flush d) (w\<lparr>output_file := Some (Doc (JObj d))\<rparr>)"

record run =
  results :: dict
  completed :: int
  found :: int
  consecutive_fails :: int
  env :: world

text \<open>The truth value of \<^verbatim>\<open>img\<close> in \<^verbatim>\<open>if img:\<close>, for a string or \<^verbatim>\<open>None\<close>.\<close>

definition truthy :: "string option \<Rightarrow> bool" where
  "truthy img = (case img of None \<Rightarrow> False | Some s \<Rightarrow> s \<noteq> [])"

definition to_json :: "string option \<Rightarrow> json" where
  "to_json img = (case img of None \<Rightarrow> JNull | Some s \<Rightarrow> JStr s)"

text \<open>
  The body of the loop after the fetch:
  \<^verbatim>\<open>
  results[url] = img
  completed += 1
  if img:
      found += 1
      consecutive_fails = 0
  else:
      consecutive_fails += 1
      if consecutive_fails >= 5:
          time.sleep(60 + random.uniform(0, 30))
          consecutive_fails = 0
  if completed % BATCH_SAVE_EVERY == 0:
      json.dump(results, f)
  \<close>
\<close>

definition count_result :: "string option \<Rightarrow> run \<Rightarrow> run" where
  "count_result img st =
     (if truthy img then st\<lparr>found := found st + 1, consecutive_fails := 0\<rparr>
      else
        (let st1 = st\<lparr>consecutive_fails := consecutive_fails st + 1\<rparr>
         in if consecutive_fails st1 \<ge> 5
            then st1\<lparr>env := log_event (Sleep Cooldown) (env st1), consecutive_fails := 0\<rparr>
            else st1))"

definition record_result :: "string \<Rightarrow> string option \<Rightarrow> run \<Rightarrow> run" where
  "record_result url img st =
     (let st1 = st\<lparr>results := AList.update url (to_json img) (results st),
                    completed := completed st + 1\<rparr>;
          st2 = count_result img st1
      in if completed st2 mod BATCH_SAVE_EVERY = 0
         then st2\<lparr>env := flush (results st2) (env st2)\<rparr>
         else st2)"

text \<open>
  One turn of the loop: the delay, the fetch, the bookkeeping. An exception leaving
  \<^verbatim>\<open>fetch_image_url\<close> would leave the loop and \<^verbatim>\<open>main\<close> with it.
\<close>

definition scrape_one :: "transport \<Rightarrow> extractor \<Rightarrow> string \<Rightarrow> run \<Rightarrow> exc option \<times> run" where
  "scrape_one tr ex url st =
     (case fetch_image_url tr ex url 0 (log_event (Sleep Delay) (env st)) of
        (Inl e, w) \<Rightarrow> (Some e, st\<lparr>env := w\<rparr>)
      | (Inr img, w) \<Rightarrow> (None, record_result url img (st\<lparr>env := w\<rparr>)))"

fun scrape_all :: "transport \<Rightarrow> extractor \<Rightarrow> string list \<Rightarrow> run \<Rightarrow> exc option \<times> run" where
  "scrape_all tr ex [] st = (None, st)"
| "scrape_all tr ex (url # urls) st =
     (case scrape_one tr ex url st of
        (Some e, st') \<Rightarrow> (Some e, st')
      | (None, st') \<Rightarrow> scrape_all tr ex urls st')"

text \<open>
  \<^verbatim>\<open>main\<close>, with the exception that ended it (\<open>None\<close> for a run that returned) and the
  world it left. The program is \<open>main tr extract_image_url rnd\<close>; the extraction is an
  argument so that statements can range over every extraction.
\<close>

definition main :: "transport \<Rightarrow> extractor \<Rightarrow> (nat \<Rightarrow> nat) \<Rightarrow> world \<Rightarrow> exc option \<times> world" where
  "main tr ex rnd w =
     (case load_catalog w of
        Inl e \<Rightarrow> (Some e, w)
      | Inr data \<Rightarrow>
          (case load_existing w of
             Inl e \<Rightarrow> (Some e, w)
           | Inr existing \<Rightarrow>
               (let pending = to_scrape rnd (catalog_urls data) existing in
                if pending = [] then (None, w)
                else
                  (case scrape_all tr ex pending
                          \<lparr>results = existing, completed = 0,
                           found = int (length existing), consecutive_fails = 0,
                           env = warm_up tr w\<rparr> of
                     (Some e, st) \<Rightarrow> (Some e, env st)
                   | (None, st) \<Rightarrow> (None, flush (results st) (env st))))))"

subsection \<open>Measures on patterns\<close>

text \<open>
  The least number of characters a match of a pattern takes, whether a pattern has a
  capturing group, and whether every match of it leaves a non-empty text in group 1.
\<close>

primrec min_len :: "rx \<Rightarrow> nat" where
  "min_len (Str lit) = length lit"
| "min_len (One c) = 1"
| "min_len (Plus c) = 1"
| "min_len (Star c) = 0"
| "min_len (Seq a b) = min_len a + min_len b"
| "min_len (Alt a b) = min (min_len a) (min_len b)"
| "min_len (Grp a) = min_len a"

primrec has_grp :: "rx \<Rightarrow> bool" where
  "has_grp (Str lit) = False"
| "has_grp (One c) = False"
| "has_grp (Plus c) = False"
| "has_grp (Star c) = False"
| "has_grp (Seq a b) = (has_grp a \<or> has_grp b)"
| "has_grp (Alt a b) = (has_grp a \<or> has_grp b)"
| "has_grp (Grp a) = True"

primrec grp_nonempty :: "rx \<Rightarrow> bool" where
  "grp_nonempty (Str lit) = False"
| "grp_nonempty (One c) = False"
| "grp_nonempty (Plus c) = False"
| "grp_nonempty (Star c) = False"
| "grp_nonempty (Seq a b) = (grp_nonempty b \<or> (grp_nonempty a \<and> \<not> has_grp b))"
| "grp_nonempty (Alt a b) = (grp_nonempty a \<and> grp_nonempty b)"
| "grp_nonempty (Grp a) = (0 < min_len a)"

subsection \<open>Observations on a run\<close>

text \<open>The number of cool-down sleeps in a list of events.\<close>

definition cooldowns :: "event list \<Rightarrow> nat" where
  "cooldowns es = length (filter (\<lambda>e. e = Sleep Cooldown) es)"

text \<open>The bookkeeping of the loop, fed with a list of targets and their results.\<close>

fun record_results :: "(string \<times> string option) list \<Rightarrow> run \<Rightarrow> run" where
  "record_results [] st = st"
| "record_results ((url, img) # rs) st = record_results rs (record_result url img st)"

text \<open>The events a fetch of \<open>url\<close> may add: its requests and its back-off sleeps.\<close>

fun fetch_event :: "string \<Rightarrow> event \<Rightarrow> bool" where
  "fetch_event url (FetchRequest u a) = (u = url)"
| "fetch_event url (Sleep (Backoff a)) = True"
| "fetch_event url e = False"

text \<open>
  An event spares the entry \<open>(k, v)\<close> when it is no request for the page \<open>k\<close> and, if
  it is a write, writes \<open>k\<close> with the value \<open>v\<close>.
\<close>

fun spares :: "string \<Rightarrow> json \<Rightarrow> event \<Rightarrow> bool" where
  "spares k v (FetchRequest u a) = (u \<noteq> k)"
| "spares k v (Flush d) = (map_of d k = Some v)"
| "spares k v e = True"

subsection \<open>Inputs of the examples\<close>

text \<open>
  A page with an image address, a transport that answers with it for every address but
  one, and twenty targets.
\<close>

definition example_page :: string where
  "example_page = ''<meta property='' @ [CHR 0x22] @ ''og:image'' @ [CHR 0x22] @
     '' content='' @ [CHR 0x22] @ ''https://media.parfumo.com/p.jpg'' @ [CHR 0x22] @ ''>''"

definition example_transport :: transport where
  "example_transport t u =
     (if u = ''http://x/b'' then Inl (HTTPError 404) else Inr example_page)"

definition example_targets :: "string list" where
  "example_targets =
    [''http://x/a'', ''http://x/b'', ''http://x/c'', ''http://x/d'', ''http://x/e'',
     ''http://x/f'', ''http://x/g'', ''http://x/h'', ''http://x/i'', ''http://x/j'',
     ''http://x/k'', ''http://x/l'', ''http://x/m'', ''http://x/n'', ''http://x/o'',
     ''http://x/p'', ''http://x/q'', ''http://x/r'', ''http://x/s'', ''http://x/t'']"

section \<open>Properties\<close>

subsection \<open>The fetch and its retries\<close>

declare fetch_image_url.simps [simp del]

lemma fetch_image_url_found:
  "fetch_attempt tr ex url a w = (Inr img, w1) \<Longrightarrow> fetch_image_url tr ex url a w = (Inr img, w1)"
  by (simp add: fetch_image_url.simps [of tr ex url a w])

lemma fetch_image_url_other:
  "fetch_attempt tr ex url a w = (Inl (OtherException n), w1) \<Longrightarrow>
   fetch_image_url tr ex url a w = (Inr None, w1)"
  by (simp add: fetch_image_url.simps [of tr ex url a w])

lemma fetch_image_url_retry:
  "fetch_attempt tr ex url a w = (Inl (HTTPError c), w1) \<Longrightarrow> c = 429 \<or> c = 403 \<Longrightarrow>
   a < MAX_RETRIES \<Longrightarrow>
   fetch_image_url tr ex url a w =
     fetch_image_url tr ex url (a + 1) (log_event (Sleep (Backoff a)) w1)"
  by (simp add: fetch_image_url.simps [of tr ex url a w])

lemma fetch_image_url_give_up:
  "fetch_attempt tr ex url a w = (Inl (HTTPError c), w1) \<Longrightarrow>
   \<not> ((c = 429 \<or> c = 403) \<and> a < MAX_RETRIES) \<Longrightarrow>
   fetch_image_url tr ex url a w = (Inr None, w1)"
  by (auto simp: fetch_image_url.simps [of tr ex url a w])

lemma fetch_attempt_world:
  "fetch_attempt tr ex url a w = (r, w1) \<Longrightarrow> w1 = log_event (FetchRequest url a) w"
  by (auto simp: fetch_attempt_def Let_def split: sum.splits)

lemma added_append [simp]: "trace w' = trace w @ es \<Longrightarrow> added w w' = es"
  by (simp add: added_def)

text \<open>A fetch only adds to the history, and starts with its own request.\<close>

lemma fetch_image_url_trace:
  "\<exists>es. trace (snd (fetch_image_url tr ex url a w)) = trace w @ FetchRequest url a # es"
proof (induction tr ex url a w rule: fetch_image_url.induct)
  case (1 tr ex url attempt w)
  obtain r w1 where fa: "fetch_attempt tr ex url attempt w = (r, w1)"
    by (cases "fetch_attempt tr ex url attempt w")
  have t1: "trace w1 = trace w @ [FetchRequest url attempt]"
    using fetch_attempt_world [OF fa] by (simp add: log_event_def)
  show ?case
  proof (cases r)
    case (Inr img)
    with fa t1 show ?thesis by (simp add: fetch_image_url_found)
  next
    case (Inl e)
    show ?thesis
    proof (cases e)
      case (OtherException name)
      with Inl fa t1 show ?thesis by (simp add: fetch_image_url_other)
    next
      case (HTTPError code)
      show ?thesis
      proof (cases "(code = 429 \<or> code = 403) \<and> attempt < MAX_RETRIES")
        case False
        with HTTPError Inl fa t1 show ?thesis
          by (simp add: fetch_image_url_give_up)
      next
        case True
        from "1.IH" [OF fa [symmetric] Inl HTTPError True]
        obtain es where
          "trace (snd (fetch_image_url tr ex url (attempt + 1)
                        (log_event (Sleep (Backoff attempt)) w1))) =
           trace (log_event (Sleep (Backoff attempt)) w1) @ FetchRequest url (attempt + 1) # es"
          by blast
        moreover have "fetch_image_url tr ex url attempt w =
           fetch_image_url tr ex url (attempt + 1) (log_event (Sleep (Backoff attempt)) w1)"
          using fetch_image_url_retry fa Inl HTTPError True by blast
        ultimately show ?thesis using t1
          by (simp add: log_event_def)
      qed
    qed
  qed
qed

text \<open>
  C3. Whatever the target, when the transport answers every request with an HTTP error
  429 or 403, the fetch started with attempt 0 returns null after exactly
  \<open>MAX_RETRIES + 1 = 3\<close> requests, with a back-off sleep between them.
\<close>

theorem fetch_retry_bound:
  assumes always: "\<forall>t. \<exists>c. tr t url = Inl (HTTPError c) \<and> (c = 429 \<or> c = 403)"
  shows "fst (fetch_image_url tr ex url 0 w) = Inr None \<and>
         fetches (added w (snd (fetch_image_url tr ex url 0 w))) = nat (MAX_RETRIES + 1) \<and>
         nat (MAX_RETRIES + 1) = 3 \<and>
         added w (snd (fetch_image_url tr ex url 0 w)) =
           [FetchRequest url 0, Sleep (Backoff 0), FetchRequest url 1, Sleep (Backoff 1),
            FetchRequest url 2]"
proof -
  define w1 where "w1 = log_event (FetchRequest url 0) w"
  define w2 where "w2 = log_event (FetchRequest url 1) (log_event (Sleep (Backoff 0)) w1)"
  define w3 where "w3 = log_event (FetchRequest url 2) (log_event (Sleep (Backoff 1)) w2)"
  from always obtain c0 where c0: "tr (trace w) url = Inl (HTTPError c0)" "c0 = 429 \<or> c0 = 403"
    by blast
  from always obtain c1 where
    c1: "tr (trace (log_event (Sleep (Backoff 0)) w1)) url = Inl (HTTPError c1)"
    "c1 = 429 \<or> c1 = 403"
    by blast
  from always obtain c2 where
    c2: "tr (trace (log_event (Sleep (Backoff 1)) w2)) url = Inl (HTTPError c2)"
    "c2 = 429 \<or> c2 = 403"
    by blast
  have f0: "fetch_attempt tr ex url 0 w = (Inl (HTTPError c0), w1)"
    using c0(1) by (simp add: fetch_attempt_def Let_def w1_def)
  have f1: "fetch_attempt tr ex url 1 (log_event (Sleep (Backoff 0)) w1) = (Inl (HTTPError c1), w2)"
    using c1(1) by (simp add: fetch_attempt_def Let_def w2_def)
  have f2: "fetch_attempt tr ex url 2 (log_event (Sleep (Backoff 1)) w2) = (Inl (HTTPError c2), w3)"
    using c2(1) by (simp add: fetch_attempt_def Let_def w3_def)
  have s0: "fetch_image_url tr ex url 0 w =
            fetch_image_url tr ex url 1 (log_event (Sleep (Backoff 0)) w1)"
    using fetch_image_url_retry [OF f0 c0(2)] by (simp add: MAX_RETRIES_def)
  have s1: "fetch_image_url tr ex url 1 (log_event (Sleep (Backoff 0)) w1) =
            fetch_image_url tr ex url 2 (log_event (Sleep (Backoff 1)) w2)"
    using fetch_image_url_retry [OF f1 c1(2)] by (simp add: MAX_RETRIES_def)
  have s2: "fetch_image_url tr ex url 2 (log_event (Sleep (Backoff 1)) w2) = (Inr None, w3)"
    using fetch_image_url_give_up [OF f2] by (simp add: MAX_RETRIES_def)
  have all: "fetch_image_url tr ex url 0 w = (Inr None, w3)"
    using s0 s1 s2 by simp
  have tr3: "trace w3 = trace w @ [FetchRequest url 0, Sleep (Backoff 0), FetchRequest url 1,
    Sleep (Backoff 1), FetchRequest url 2]"
    by (simp add: w3_def w2_def w1_def log_event_def)
  show ?thesis
    using all tr3 by (simp add: fetches_def MAX_RETRIES_def)
qed

theorem fetch_retry_bound_witness:
  "fst (fetch_image_url (\<lambda>t u. Inl (HTTPError 429)) (\<lambda>h. Inr None) ''http://x/a'' 0
         \<lparr>catalog_file = None, output_file = None, trace = []\<rparr>) = Inr None \<and>
   fetches (added \<lparr>catalog_file = None, output_file = None, trace = []\<rparr>
     (snd (fetch_image_url (\<lambda>t u. Inl (HTTPError 429)) (\<lambda>h. Inr None) ''http://x/a'' 0
         \<lparr>catalog_file = None, output_file = None, trace = []\<rparr>))) = 3"
  using fetch_retry_bound [of "\<lambda>t u. Inl (HTTPError 429)" "''http://x/a''" "\<lambda>h. Inr None"
      "\<lparr>catalog_file = None, output_file = None, trace = []\<rparr>"]
  by (simp add: MAX_RETRIES_def fetches_def)

text \<open>
  C4. When the \<^verbatim>\<open>try\<close> block of an attempt raises \<open>e\<close>, the fetch sends the request of
  the next attempt if and only if \<open>e\<close> is an HTTP error with code 429 or 403 and the
  attempt counter is below \<open>MAX_RETRIES\<close>; it then is the fetch of the next attempt after
  the back-off sleep. For every other error, of the transport or of the extraction, it
  returns null at once, in the world the failed attempt left.
\<close>

theorem fetch_retry_iff:
  assumes raised: "fetch_attempt tr ex url a w = (Inl e, w1)"
  shows "(FetchRequest url (a + 1) \<in> set (added w1 (snd (fetch_image_url tr ex url a w))) \<longleftrightarrow>
            (\<exists>c. e = HTTPError c \<and> (c = 429 \<or> c = 403)) \<and> a < MAX_RETRIES) \<and>
         (if (\<exists>c. e = HTTPError c \<and> (c = 429 \<or> c = 403)) \<and> a < MAX_RETRIES
          then fetch_image_url tr ex url a w =
                 fetch_image_url tr ex url (a + 1) (log_event (Sleep (Backoff a)) w1)
          else fetch_image_url tr ex url a w = (Inr None, w1))"
proof (cases "(\<exists>c. e = HTTPError c \<and> (c = 429 \<or> c = 403)) \<and> a < MAX_RETRIES")
  case True
  then obtain c where c: "e = HTTPError c" "c = 429 \<or> c = 403" and a: "a < MAX_RETRIES"
    by blast
  have eq: "fetch_image_url tr ex url a w =
      fetch_image_url tr ex url (a + 1) (log_event (Sleep (Backoff a)) w1)"
    using fetch_image_url_retry [OF raised [unfolded c(1)] c(2) a] .
  obtain es where
    "trace (snd (fetch_image_url tr ex url (a + 1) (log_event (Sleep (Backoff a)) w1))) =
      trace (log_event (Sleep (Backoff a)) w1) @ FetchRequest url (a + 1) # es"
    using fetch_image_url_trace by blast
  then have "added w1 (snd (fetch_image_url tr ex url a w)) =
      Sleep (Backoff a) # FetchRequest url (a + 1) # es"
    using eq by (simp add: log_event_def)
  then have "FetchRequest url (a + 1) \<in> set (added w1 (snd (fetch_image_url tr ex url a w)))"
    by simp
  then show ?thesis
    unfolding if_P [OF True] using True eq by blast
next
  case False
  have r: "fetch_image_url tr ex url a w = (Inr None, w1)"
  proof (cases e)
    case (HTTPError c)
    with False raised show ?thesis by (intro fetch_image_url_give_up [where c = c]) auto
  next
    case (OtherException n)
    with raised show ?thesis by (simp add: fetch_image_url_other)
  qed
  then have "FetchRequest url (a + 1) \<notin> set (added w1 (snd (fetch_image_url tr ex url a w)))"
    by (simp add: added_def)
  then show ?thesis
    unfolding if_not_P [OF False] using False r by blast
qed

theorem fetch_retry_iff_witness:
  "fetch_attempt (\<lambda>t u. if t = [] then Inl (HTTPError 403) else Inr ''<html>'')
      (\<lambda>h. Inr (Some ''ref'')) ''http://x/a'' 0
      \<lparr>catalog_file = None, output_file = None, trace = []\<rparr> =
   (Inl (HTTPError 403),
    \<lparr>catalog_file = None, output_file = None, trace = [FetchRequest ''http://x/a'' 0]\<rparr>) \<and>
   FetchRequest ''http://x/a'' (0 + 1) \<in> set (added
      \<lparr>catalog_file = None, output_file = None, trace = [FetchRequest ''http://x/a'' 0]\<rparr>
      (snd (fetch_image_url (\<lambda>t u. if t = [] then Inl (HTTPError 403) else Inr ''<html>'')
         (\<lambda>h. Inr (Some ''ref'')) ''http://x/a'' 0
         \<lparr>catalog_file = None, output_file = None, trace = []\<rparr>)))"
proof -
  have raised: "fetch_attempt (\<lambda>t u. if t = [] then Inl (HTTPError 403) else Inr ''<html>'')
      (\<lambda>h. Inr (Some ''ref'')) ''http://x/a'' 0
      \<lparr>catalog_file = None, output_file = None, trace = []\<rparr> =
   (Inl (HTTPError 403),
    \<lparr>catalog_file = None, output_file = None, trace = [FetchRequest ''http://x/a'' 0]\<rparr>)"
    by (simp add: fetch_attempt_def log_event_def)
  have retriable: "(\<exists>c. HTTPError 403 = HTTPError c \<and> (c = 429 \<or> c = 403)) \<and> 0 < MAX_RETRIES"
    by (simp add: MAX_RETRIES_def)
  from fetch_retry_iff [OF raised, THEN conjunct1] retriable raised show ?thesis
    by blast
qed

text \<open>
  C5. Whatever the transport and the extraction do, an exception of theirs included, no
  exception leaves the fetch: its result is never \<open>Inl e\<close>. When every attempt fails
  (the transport raises, or the extraction raises on the page), the result is null.
\<close>

theorem fetch_never_raises:
  "(\<forall>e. fst (fetch_image_url tr ex url a w) \<noteq> Inl e) \<and>
   ((\<forall>t. case tr t url of Inl e \<Rightarrow> True | Inr html \<Rightarrow> isl (ex html)) \<longrightarrow>
      fst (fetch_image_url tr ex url a w) = Inr None)"
proof (induction tr ex url a w rule: fetch_image_url.induct)
  case (1 tr ex url attempt w)
  obtain r w1 where fa: "fetch_attempt tr ex url attempt w = (r, w1)"
    by (cases "fetch_attempt tr ex url attempt w")
  have fails: "isl r" if "\<forall>t. case tr t url of Inl e \<Rightarrow> True | Inr html \<Rightarrow> isl (ex html)"
    using that [rule_format, of "trace w"] fa
    by (auto simp: fetch_attempt_def Let_def split: sum.splits)
  show ?case
  proof (cases r)
    case (Inr img)
    with fa fails show ?thesis by (auto simp: fetch_image_url_found)
  next
    case (Inl e)
    show ?thesis
    proof (cases e)
      case (OtherException name)
      with Inl fa show ?thesis by (simp add: fetch_image_url_other)
    next
      case (HTTPError code)
      show ?thesis
      proof (cases "(code = 429 \<or> code = 403) \<and> attempt < MAX_RETRIES")
        case False
        with HTTPError Inl fa show ?thesis
          by (simp add: fetch_image_url_give_up [where c = code])
      next
        case True
        have "fetch_image_url tr ex url attempt w =
           fetch_image_url tr ex url (attempt + 1) (log_event (Sleep (Backoff attempt)) w1)"
          using fetch_image_url_retry fa Inl HTTPError True by blast
        with "1.IH" [OF fa [symmetric] Inl HTTPError True] show ?thesis
          by simp
      qed
    qed
  qed
qed

theorem fetch_never_raises_witness:
  "fst (fetch_image_url (\<lambda>t u. Inr ''<html>'') (\<lambda>h. Inl (OtherException ''TypeError''))
         ''http://x/a'' 0 \<lparr>catalog_file = None, output_file = None, trace = []\<rparr>) = Inr None"
  using fetch_never_raises [of "\<lambda>t u. Inr ''<html>''" "\<lambda>h. Inl (OtherException ''TypeError'')"
      "''http://x/a''" 0 "\<lparr>catalog_file = None, output_file = None, trace = []\<rparr>"]
  by simp

subsection \<open>What the extraction returns\<close>

lemma matches_shorter:
  "(s', g') \<in> set (matches r s g) \<Longrightarrow> length s' + min_len r \<le> length s"
proof (induction r arbitrary: s g s' g')
  case (Str lit)
  then have "take (length lit) s = lit" and "s' = drop (length lit) s"
    by (auto split: if_splits)
  then have "length lit \<le> length s"
    by (metis length_take min.cobounded1)
  with \<open>s' = drop (length lit) s\<close> show ?case by simp
next
  case (One c)
  then show ?case by (auto split: list.splits if_splits)
next
  case (Plus c)
  then obtain n where "1 \<le> n" "n \<le> length (takeWhile (in_cls c) s)" "s' = drop n s"
    by auto
  moreover have "length (takeWhile (in_cls c) s) \<le> length s"
    by (rule length_takeWhile_le)
  ultimately show ?case by simp
next
  case (Star c)
  then show ?case by auto
next
  case (Seq a b)
  then obtain s1 g1 where "(s1, g1) \<in> set (matches a s g)" "(s', g') \<in> set (matches b s1 g1)"
    by auto
  then have "length s1 + min_len a \<le> length s" "length s' + min_len b \<le> length s1"
    using Seq.IH by blast+
  then show ?case by simp
next
  case (Alt a b)
  then have "length s' + min_len a \<le> length s \<or> length s' + min_len b \<le> length s"
    by auto
  then show ?case by auto
next
  case (Grp a)
  then show ?case by auto
qed

lemma matches_keeps_group:
  "\<not> has_grp r \<Longrightarrow> (s', g') \<in> set (matches r s g) \<Longrightarrow> g' = g"
proof (induction r arbitrary: s g s' g')
  case (Seq a b)
  then obtain s1 g1 where "(s1, g1) \<in> set (matches a s g)" "(s', g') \<in> set (matches b s1 g1)"
    by auto
  with Seq show ?case by (metis has_grp.simps(5))
qed (auto split: if_splits list.splits)

lemma matches_group_nonempty:
  "grp_nonempty r \<Longrightarrow> (s', g') \<in> set (matches r s g) \<Longrightarrow> \<exists>u. g' = Some u \<and> u \<noteq> []"
proof (induction r arbitrary: s g s' g')
  case (Seq a b)
  from Seq.prems(2) obtain s1 g1 where
    m: "(s1, g1) \<in> set (matches a s g)" "(s', g') \<in> set (matches b s1 g1)"
    by auto
  show ?case
  proof (cases "grp_nonempty b")
    case True
    with m Seq.IH(2) show ?thesis by blast
  next
    case False
    with Seq.prems(1) have a: "grp_nonempty a" and b: "\<not> has_grp b"
      by auto
    from matches_keeps_group [OF b m(2)] have "g' = g1" .
    with Seq.IH(1) [OF a m(1)] show ?thesis by simp
  qed
next
  case (Alt a b)
  then show ?case by auto
next
  case (Grp a)
  then obtain g0 where m: "(s', g0) \<in> set (matches a s g)"
    and g': "g' = Some (take (length s - length s') s)"
    by auto
  from matches_shorter [OF m] Grp.prems(1) have "length s' < length s"
    by simp
  with g' show ?case by auto
qed simp_all

lemma re_search_nonempty:
  "grp_nonempty r \<Longrightarrow> re_search r s = Some g \<Longrightarrow> \<exists>u. g = Some u \<and> u \<noteq> []"
proof (induction s)
  case Nil
  then obtain rest ms where "matches r [] None = (rest, g) # ms"
    by (auto split: list.splits)
  then have "(rest, g) \<in> set (matches r [] None)" by simp
  with Nil.prems(1) show ?case by (rule matches_group_nonempty)
next
  case (Cons c s)
  show ?case
  proof (cases "matches r (c # s) None")
    case Nil
    with Cons show ?thesis by simp
  next
    case (Cons m ms)
    with Cons.prems(2) have "m = (fst m, g)"
      by (cases m) simp
    with Cons have "(fst m, g) \<in> set (matches r (c # s) None)"
      by (metis list.set_intros(1))
    with Cons.prems(1) show ?thesis by (rule matches_group_nonempty)
  qed
qed

lemma og_pattern_group: "grp_nonempty og_pattern"
  by (simp add: og_pattern_def seqs_def)

lemma fallback_patterns_group: "p \<in> set fallback_patterns \<Longrightarrow> grp_nonempty p"
  by (auto simp: fallback_patterns_def seqs_def image_suffix_def)

lemma first_match_nonempty:
  "(\<And>p. p \<in> set ps \<Longrightarrow> grp_nonempty p) \<Longrightarrow>
   first_match ps html = Inr None \<or> (\<exists>u. first_match ps html = Inr (Some u) \<and> u \<noteq> [])"
proof (induction ps)
  case Nil
  then show ?case by simp
next
  case (Cons p ps)
  show ?case
  proof (cases "re_search p html")
    case None
    with Cons show ?thesis by simp
  next
    case (Some g)
    with Cons.prems [of p] re_search_nonempty [of p html g] show ?thesis by auto
  qed
qed

text \<open>
  The extraction raises nothing, and the address it returns is never the empty string:
  a result that is not \<^verbatim>\<open>None\<close> is true in \<^verbatim>\<open>if img:\<close>.
\<close>

lemma extract_image_url_result:
  "extract_image_url html = Inr None \<or>
   (\<exists>u. extract_image_url html = Inr (Some u) \<and> u \<noteq> [])"
proof (cases "re_search og_pattern html")
  case None
  then show ?thesis
    using first_match_nonempty [of fallback_patterns html, OF fallback_patterns_group]
    by (simp add: extract_image_url_def)
next
  case (Some g)
  from re_search_nonempty [OF og_pattern_group Some] obtain u where u: "g = Some u" "u \<noteq> []"
    by blast
  show ?thesis
  proof (cases "\<not> contains u ''404'' \<and> contains u ''parfumo''")
    case True
    with Some u show ?thesis by (simp add: extract_image_url_def)
  next
    case False
    with Some u show ?thesis
      using first_match_nonempty [of fallback_patterns html, OF fallback_patterns_group]
      by (auto simp: extract_image_url_def)
  qed
qed

subsection \<open>The shuffle, the dictionaries, the pending list\<close>

lemma shuffle_from_mset: "i < length xs \<Longrightarrow> mset (shuffle_from rnd i xs) = mset xs"
proof (induction i arbitrary: xs)
  case 0
  then show ?case by simp
next
  case (Suc i)
  define j where "j = rnd (Suc i + 1) mod (Suc i + 1)"
  have j: "j < length xs"
    using Suc.prems by (simp add: j_def) (metis Suc_lessI less_Suc_eq mod_less_divisor not_less_eq zero_less_Suc less_trans_Suc)
  have "mset (xs[Suc i := xs ! j, j := xs ! Suc i]) = mset xs"
    using mset_swap [OF j Suc.prems] .
  moreover have "i < length (xs[Suc i := xs ! j, j := xs ! Suc i])"
    using Suc.prems by simp
  ultimately show ?case
    using Suc.IH [of "xs[Suc i := xs ! j, j := xs ! Suc i]"]
    by (simp add: j_def Let_def)
qed

lemma shuffle_mset: "mset (shuffle rnd xs) = mset xs"
proof (cases xs)
  case Nil
  then show ?thesis by (simp add: shuffle_def)
next
  case (Cons x ys)
  then show ?thesis by (simp add: shuffle_def shuffle_from_mset)
qed

lemma shuffle_set [simp]: "set (shuffle rnd xs) = set xs"
  by (metis shuffle_mset set_mset_mset)

lemma shuffle_Nil_iff [simp]: "shuffle rnd xs = [] \<longleftrightarrow> xs = []"
  by (metis shuffle_mset mset_zero_iff)

lemma shuffle_length [simp]: "length (shuffle rnd xs) = length xs"
  by (metis shuffle_mset size_mset)

lemma foldl_update_distinct:
  "distinct (map fst d) \<Longrightarrow>
   distinct (map fst (foldl (\<lambda>d (k, v). AList.update k v d) d kvs))"
  by (induction kvs arbitrary: d) (auto simp: distinct_update)

lemma dict_of_pairs_distinct: "distinct (map fst (dict_of_pairs kvs))"
  by (simp add: dict_of_pairs_def foldl_update_distinct)

lemma foldl_update_fresh:
  "distinct (map fst (d @ kvs)) \<Longrightarrow>
   foldl (\<lambda>d (k, v). AList.update k v d) d kvs = d @ kvs"
proof (induction kvs arbitrary: d)
  case Nil
  then show ?case by simp
next
  case (Cons kv kvs)
  obtain k v where kv: "kv = (k, v)" by (cases kv)
  from Cons.prems kv have "k \<notin> fst ` set d" by auto
  then have "AList.update k v d = d @ [(k, v)]"
    by (induction d) auto
  with Cons kv show ?case by simp
qed

lemma dict_of_pairs_dict: "distinct (map fst d) \<Longrightarrow> dict_of_pairs d = d"
  using foldl_update_fresh [of "[]" d] by (simp add: dict_of_pairs_def)

lemma load_raw_distinct: "load_raw w = Inr raw \<Longrightarrow> distinct (map fst raw)"
  by (auto simp: load_raw_def dict_of_pairs_distinct
      split: option.splits content.splits json.splits)

lemma resolved_subset_distinct:
  "distinct (map fst raw) \<Longrightarrow> distinct (map fst (resolved_subset raw))"
  by (simp add: resolved_subset_def distinct_map_filter)

lemma resolved_subset_map_of:
  "distinct (map fst raw) \<Longrightarrow>
   map_of (resolved_subset raw) k = (if map_of raw k = Some JNull then None else map_of raw k)"
proof (induction raw)
  case Nil
  then show ?case by (simp add: resolved_subset_def)
next
  case (Cons kv raw)
  obtain k' v where kv: "kv = (k', v)" by (cases kv)
  from Cons.prems kv have fresh: "map_of raw k' = None"
    by (simp add: map_of_eq_None_iff)
  from Cons kv have IH: "map_of (resolved_subset raw) k =
      (if map_of raw k = Some JNull then None else map_of raw k)"
    by simp
  show ?case
    using IH fresh kv by (auto simp: resolved_subset_def)
qed

lemma resolved_subset_keys:
  "distinct (map fst raw) \<Longrightarrow>
   k \<in> fst ` set (resolved_subset raw) \<longleftrightarrow> (\<exists>v. map_of raw k = Some v \<and> v \<noteq> JNull)"
proof -
  assume d: "distinct (map fst raw)"
  have "k \<in> fst ` set (resolved_subset raw) \<longleftrightarrow> map_of (resolved_subset raw) k \<noteq> None"
    by (simp add: map_of_eq_None_iff)
  also have "\<dots> \<longleftrightarrow> (\<exists>v. map_of raw k = Some v \<and> v \<noteq> JNull)"
    using resolved_subset_map_of [OF d, of k] by auto
  finally show ?thesis .
qed

text \<open>
  C1. For every prior store and every catalogue: a target of the catalogue whose stored
  value is null is in the pending list of the next run, and a target whose stored value
  is not null is not. The pending targets are the targets of the catalogue that the
  store does not know or maps to null; only the entries with a value other than null
  are loaded as resolved.
\<close>

theorem pending_null_retriable:
  assumes prior: "load_raw w = Inr raw"
  shows "(T \<in> set (catalog_urls data) \<and> map_of raw T = Some JNull \<longrightarrow>
            T \<in> set (to_scrape rnd (catalog_urls data) (resolved_subset raw))) \<and>
         (\<forall>v. map_of raw T = Some v \<and> v \<noteq> JNull \<longrightarrow>
            T \<notin> set (to_scrape rnd (catalog_urls data) (resolved_subset raw))) \<and>
         (T \<in> set (to_scrape rnd (catalog_urls data) (resolved_subset raw)) \<longleftrightarrow>
            T \<in> set (catalog_urls data) \<and> (map_of raw T = None \<or> map_of raw T = Some JNull)) \<and>
         load_existing w = Inr (resolved_subset raw)"
proof -
  have d: "distinct (map fst raw)"
    using prior by (rule load_raw_distinct)
  have "T \<in> set (to_scrape rnd (catalog_urls data) (resolved_subset raw)) \<longleftrightarrow>
      T \<in> set (catalog_urls data) \<and> \<not> (\<exists>v. map_of raw T = Some v \<and> v \<noteq> JNull)"
    using resolved_subset_keys [OF d, of T] by (simp add: to_scrape_def)
  moreover have "load_existing w = Inr (resolved_subset raw)"
    using prior by (simp add: load_existing_def)
  ultimately show ?thesis by (cases "map_of raw T") auto
qed

theorem pending_null_retriable_witness:
  "''http://x/a'' \<in> set (to_scrape (\<lambda>n. 0)
      (catalog_urls [\<lparr>canonical_url = Some ''http://x/a''\<rparr>, \<lparr>canonical_url = Some ''http://x/b''\<rparr>])
      (resolved_subset [(''http://x/a'', JNull), (''http://x/b'', JStr ''ref'')])) \<and>
   ''http://x/b'' \<notin> set (to_scrape (\<lambda>n. 0)
      (catalog_urls [\<lparr>canonical_url = Some ''http://x/a''\<rparr>, \<lparr>canonical_url = Some ''http://x/b''\<rparr>])
      (resolved_subset [(''http://x/a'', JNull), (''http://x/b'', JStr ''ref'')]))"
proof -
  let ?w = "\<lparr>catalog_file = None,
      output_file = Some (Doc (JObj [(''http://x/a'', JNull), (''http://x/b'', JStr ''ref'')])),
      trace = []\<rparr>"
  have prior: "load_raw ?w = Inr [(''http://x/a'', JNull), (''http://x/b'', JStr ''ref'')]"
    by (simp add: load_raw_def dict_of_pairs_def)
  have urls: "catalog_urls [\<lparr>canonical_url = Some ''http://x/a''\<rparr>, \<lparr>canonical_url = Some ''http://x/b''\<rparr>]
      = [''http://x/a'', ''http://x/b'']"
    by (simp add: catalog_urls_def)
  show ?thesis
    using pending_null_retriable [OF prior, of "''http://x/a''"
        "[\<lparr>canonical_url = Some ''http://x/a''\<rparr>, \<lparr>canonical_url = Some ''http://x/b''\<rparr>]" "\<lambda>n. 0"]
      pending_null_retriable [OF prior, of "''http://x/b''"
        "[\<lparr>canonical_url = Some ''http://x/a''\<rparr>, \<lparr>canonical_url = Some ''http://x/b''\<rparr>]" "\<lambda>n. 0"]
    by (simp add: urls)
qed

text \<open>
  C7. For every dictionary, writing it to the output file, loading the file again and
  keeping the resolved entries gives exactly the entries of the dictionary whose value
  is not null: every key with a string (or any other value but null) is found with that
  value, and every key with null is absent.
\<close>

theorem flush_load_round_trip:
  assumes "distinct (map fst m)"
  shows "load_raw (flush m w) = Inr m \<and>
         load_existing (flush m w) = Inr (resolved_subset m) \<and>
         (\<forall>k. map_of (resolved_subset m) k =
            (if map_of m k = Some JNull then None else map_of m k))"
  using assms
  by (simp add: load_existing_def load_raw_def flush_def log_event_def dict_of_pairs_dict
      resolved_subset_map_of)

theorem flush_load_round_trip_witness:
  "load_existing (flush [(''http://x/a'', JStr ''ref''), (''http://x/b'', JNull)]
      \<lparr>catalog_file = None, output_file = None, trace = []\<rparr>) =
   Inr [(''http://x/a'', JStr ''ref'')]"
  using flush_load_round_trip [of "[(''http://x/a'', JStr ''ref''), (''http://x/b'', JNull)]"
      "\<lparr>catalog_file = None, output_file = None, trace = []\<rparr>"]
  by (simp add: resolved_subset_def)

subsection \<open>Loading the prior store\<close>

text \<open>
  C8. Without an output file the prior store is loaded as the empty dictionary. With an
  output file that holds anything but a JSON object (bytes or text that the reading
  refuses, or a document that is no object) the load raises, and \<^verbatim>\<open>main\<close> ends with an
  exception and leaves the world as it found it: no request sent, nothing written.
  Such content is never taken for an empty store: a load that returns a dictionary
  found no file, or an object whose entries with a value other than null it returns.
\<close>

theorem load_absent_or_malformed:
  "(output_file w = None \<longrightarrow> load_raw w = Inr [] \<and> load_existing w = Inr []) \<and>
   (\<forall>c. output_file w = Some c \<and> (\<forall>kvs. c \<noteq> Doc (JObj kvs)) \<longrightarrow>
      (\<exists>e. load_raw w = Inl e \<and> load_existing w = Inl e \<and>
           (\<forall>name. c = Refused name \<longrightarrow> e = OtherException name) \<and>
           (\<forall>j. c = Doc j \<longrightarrow> e = OtherException ''AttributeError'')) \<and>
      (\<exists>e. main tr ex rnd w = (Some e, w)) \<and>
      (\<forall>data. load_catalog w = Inr data \<longrightarrow>
         (\<exists>e. load_existing w = Inl e \<and> main tr ex rnd w = (Some e, w)))) \<and>
   (\<forall>existing. load_existing w = Inr existing \<longrightarrow>
      (output_file w = None \<and> existing = []) \<or>
      (\<exists>kvs. output_file w = Some (Doc (JObj kvs)) \<and>
         existing = resolved_subset (dict_of_pairs kvs)))"
proof (intro conjI allI impI)
  assume "output_file w = None"
  then show "load_raw w = Inr []" "load_existing w = Inr []"
    by (simp_all add: load_existing_def load_raw_def resolved_subset_def)
next
  fix c
  assume c: "output_file w = Some c \<and> (\<forall>kvs. c \<noteq> Doc (JObj kvs))"
  have raw: "load_raw w = Inl (case c of Refused name \<Rightarrow> OtherException name
      | Doc j \<Rightarrow> OtherException ''AttributeError'')"
    using c by (cases c) (auto simp: load_raw_def split: json.splits)
  then have lex: "load_existing w = Inl (case c of Refused name \<Rightarrow> OtherException name
      | Doc j \<Rightarrow> OtherException ''AttributeError'')"
    by (simp add: load_existing_def)
  show "\<exists>e. load_raw w = Inl e \<and> load_existing w = Inl e \<and>
           (\<forall>name. c = Refused name \<longrightarrow> e = OtherException name) \<and>
           (\<forall>j. c = Doc j \<longrightarrow> e = OtherException ''AttributeError'')"
    using raw lex by (cases c) auto
  show "\<exists>e. main tr ex rnd w = (Some e, w)"
    using lex by (cases "load_catalog w") (simp_all add: main_def)
  show "\<exists>e. load_existing w = Inl e \<and> main tr ex rnd w = (Some e, w)"
    if "load_catalog w = Inr data" for data
    using lex that by (simp add: main_def)
next
  fix existing
  assume "load_existing w = Inr existing"
  then show "(output_file w = None \<and> existing = []) \<or>
      (\<exists>kvs. output_file w = Some (Doc (JObj kvs)) \<and>
         existing = resolved_subset (dict_of_pairs kvs))"
    by (auto simp: load_existing_def load_raw_def resolved_subset_def
        split: option.splits content.splits json.splits sum.splits)
qed

theorem load_absent_or_malformed_witness:
  "load_existing \<lparr>catalog_file = Some (Doc [\<lparr>canonical_url = Some ''http://x/a''\<rparr>]),
      output_file = None, trace = []\<rparr> = Inr [] \<and>
   (\<exists>e. load_existing \<lparr>catalog_file = Some (Doc [\<lparr>canonical_url = Some ''http://x/a''\<rparr>]),
           output_file = Some (Refused ''JSONDecodeError''), trace = []\<rparr> = Inl e \<and>
        main (\<lambda>t u. Inr ''<html>'') extract_image_url (\<lambda>n. 0)
          \<lparr>catalog_file = Some (Doc [\<lparr>canonical_url = Some ''http://x/a''\<rparr>]),
           output_file = Some (Refused ''JSONDecodeError''), trace = []\<rparr> =
        (Some e, \<lparr>catalog_file = Some (Doc [\<lparr>canonical_url = Some ''http://x/a''\<rparr>]),
           output_file = Some (Refused ''JSONDecodeError''), trace = []\<rparr>)) \<and>
   (\<exists>e. load_existing \<lparr>catalog_file = Some (Doc [\<lparr>canonical_url = Some ''http://x/a''\<rparr>]),
           output_file = Some (Doc (JArr [])), trace = []\<rparr> = Inl e \<and>
        main (\<lambda>t u. Inr ''<html>'') extract_image_url (\<lambda>n. 0)
          \<lparr>catalog_file = Some (Doc [\<lparr>canonical_url = Some ''http://x/a''\<rparr>]),
           output_file = Some (Doc (JArr [])), trace = []\<rparr> =
        (Some e, \<lparr>catalog_file = Some (Doc [\<lparr>canonical_url = Some ''http://x/a''\<rparr>]),
           output_file = Some (Doc (JArr [])), trace = []\<rparr>))"
proof -
  let ?cat = "Some (Doc [\<lparr>canonical_url = Some ''http://x/a''\<rparr>])"
  let ?tr = "\<lambda>t u. Inr ''<html>'' :: exc + string"
  have absent: "output_file \<lparr>catalog_file = ?cat, output_file = None, trace = []\<rparr> = None"
    by simp
  have refused: "output_file \<lparr>catalog_file = ?cat, output_file = Some (Refused ''JSONDecodeError''),
      trace = []\<rparr> = Some (Refused ''JSONDecodeError'') \<and>
      (\<forall>kvs. Refused ''JSONDecodeError'' \<noteq> Doc (JObj kvs))"
    by simp
  have array: "output_file \<lparr>catalog_file = ?cat, output_file = Some (Doc (JArr [])),
      trace = []\<rparr> = Some (Doc (JArr [])) \<and> (\<forall>kvs. Doc (JArr []) \<noteq> Doc (JObj kvs))"
    by simp
  have cat: "load_catalog \<lparr>catalog_file = ?cat, output_file = f, trace = []\<rparr> =
      Inr [\<lparr>canonical_url = Some ''http://x/a''\<rparr>]" for f
    by (simp add: load_catalog_def)
  from load_absent_or_malformed [of "\<lparr>catalog_file = ?cat, output_file = None, trace = []\<rparr>"
      ?tr extract_image_url "\<lambda>n. 0", THEN conjunct1, rule_format, OF absent]
  have 1: "load_existing \<lparr>catalog_file = ?cat, output_file = None, trace = []\<rparr> = Inr []"
    by simp
  from load_absent_or_malformed [of "\<lparr>catalog_file = ?cat,
      output_file = Some (Refused ''JSONDecodeError''), trace = []\<rparr>"
      ?tr extract_image_url "\<lambda>n. 0", THEN conjunct2, THEN conjunct1, rule_format, OF refused]
    cat
  have 2: "\<exists>e. load_existing \<lparr>catalog_file = ?cat,
           output_file = Some (Refused ''JSONDecodeError''), trace = []\<rparr> = Inl e \<and>
        main ?tr extract_image_url (\<lambda>n. 0)
          \<lparr>catalog_file = ?cat, output_file = Some (Refused ''JSONDecodeError''), trace = []\<rparr> =
        (Some e, \<lparr>catalog_file = ?cat,
           output_file = Some (Refused ''JSONDecodeError''), trace = []\<rparr>)"
    by blast
  from load_absent_or_malformed [of "\<lparr>catalog_file = ?cat,
      output_file = Some (Doc (JArr [])), trace = []\<rparr>"
      ?tr extract_image_url "\<lambda>n. 0", THEN conjunct2, THEN conjunct1, rule_format, OF array]
    cat
  have 3: "\<exists>e. load_existing \<lparr>catalog_file = ?cat,
           output_file = Some (Doc (JArr [])), trace = []\<rparr> = Inl e \<and>
        main ?tr extract_image_url (\<lambda>n. 0)
          \<lparr>catalog_file = ?cat, output_file = Some (Doc (JArr [])), trace = []\<rparr> =
        (Some e, \<lparr>catalog_file = ?cat,
           output_file = Some (Doc (JArr [])), trace = []\<rparr>)"
    by blast
  from 1 2 3 show ?thesis by blast
qed

subsection \<open>The loop\<close>

lemma fetch_image_url_returns: "\<exists>img. fst (fetch_image_url tr ex url a w) = Inr img"
proof (induction tr ex url a w rule: fetch_image_url.induct)
  case (1 tr ex url attempt w)
  then show ?case
    by (subst fetch_image_url.simps) (auto split: prod.splits sum.splits exc.splits)
qed

lemma fetch_image_url_world:
  "\<exists>es. snd (fetch_image_url tr ex url a w) = w\<lparr>trace := trace w @ es\<rparr> \<and>
        list_all (fetch_event url) es"
proof (induction tr ex url a w rule: fetch_image_url.induct)
  case (1 tr ex url attempt w)
  obtain r w1 where fa: "fetch_attempt tr ex url attempt w = (r, w1)"
    by (cases "fetch_attempt tr ex url attempt w")
  have w1: "w1 = w\<lparr>trace := trace w @ [FetchRequest url attempt]\<rparr>"
    using fetch_attempt_world [OF fa] by (simp add: log_event_def)
  have stop: ?case if "fetch_image_url tr ex url attempt w = (x, w1)" for x
    using that w1 by (intro exI [of _ "[FetchRequest url attempt]"]) simp
  show ?case
  proof (cases r)
    case (Inr img)
    with fa show ?thesis by (intro stop [of "Inr img"]) (simp add: fetch_image_url_found)
  next
    case (Inl e)
    show ?thesis
    proof (cases e)
      case (OtherException name)
      with Inl fa show ?thesis by (intro stop [of "Inr None"]) (simp add: fetch_image_url_other)
    next
      case (HTTPError code)
      show ?thesis
      proof (cases "(code = 429 \<or> code = 403) \<and> attempt < MAX_RETRIES")
        case False
        with HTTPError Inl fa show ?thesis
          by (intro stop [of "Inr None"]) (simp add: fetch_image_url_give_up)
      next
        case True
        from "1.IH" [OF fa [symmetric] Inl HTTPError True]
        obtain es where es:
          "snd (fetch_image_url tr ex url (attempt + 1) (log_event (Sleep (Backoff attempt)) w1)) =
           (log_event (Sleep (Backoff attempt)) w1)
             \<lparr>trace := trace (log_event (Sleep (Backoff attempt)) w1) @ es\<rparr>"
          "list_all (fetch_event url) es"
          by blast
        have eq: "fetch_image_url tr ex url attempt w =
           fetch_image_url tr ex url (attempt + 1) (log_event (Sleep (Backoff attempt)) w1)"
          using fetch_image_url_retry fa Inl HTTPError True by blast
        show ?thesis
          using es w1 unfolding eq
          by (intro exI [of _ "FetchRequest url attempt # Sleep (Backoff attempt) # es"])
            (simp add: log_event_def)
      qed
    qed
  qed
qed

text \<open>One turn of the loop never raises; what it does to the state.\<close>

lemma scrape_one_step:
  obtains img es where
    "scrape_one tr ex url st =
       (None, record_result url img (st\<lparr>env := (env st)\<lparr>trace := trace (env st) @ Sleep Delay # es\<rparr>\<rparr>))"
    "list_all (fetch_event url) es"
    "fetch_image_url tr ex url 0 (log_event (Sleep Delay) (env st)) =
       (Inr img, (env st)\<lparr>trace := trace (env st) @ Sleep Delay # es\<rparr>)"
proof -
  obtain r w' where f: "fetch_image_url tr ex url 0 (log_event (Sleep Delay) (env st)) = (r, w')"
    by (cases "fetch_image_url tr ex url 0 (log_event (Sleep Delay) (env st))")
  from fetch_image_url_returns [of tr ex url 0 "log_event (Sleep Delay) (env st)"] f
  obtain img where r: "r = Inr img"
    by auto
  from fetch_image_url_world [of tr ex url 0 "log_event (Sleep Delay) (env st)"] f
  obtain es where es: "w' = (log_event (Sleep Delay) (env st))
      \<lparr>trace := trace (log_event (Sleep Delay) (env st)) @ es\<rparr>" "list_all (fetch_event url) es"
    by auto
  have w': "w' = (env st)\<lparr>trace := trace (env st) @ Sleep Delay # es\<rparr>"
    using es(1) by (simp add: log_event_def)
  show ?thesis
    using that [of img es] f r w' es(2) by (simp add: scrape_one_def)
qed

text \<open>What the bookkeeping of one turn does to each field of the state.\<close>

lemma record_result_results [simp]:
  "results (record_result url img st) = AList.update url (to_json img) (results st)"
  by (simp add: record_result_def count_result_def Let_def)

lemma record_result_completed [simp]:
  "completed (record_result url img st) = completed st + 1"
  by (simp add: record_result_def count_result_def Let_def)

lemma record_result_consecutive_fails:
  "consecutive_fails (record_result url img st) =
     (if truthy img then 0
      else if consecutive_fails st + 1 \<ge> 5 then 0 else consecutive_fails st + 1)"
  by (simp add: record_result_def count_result_def Let_def)

lemma record_result_env:
  "env (record_result url img st) =
     (env st)\<lparr>trace := trace (env st) @
        (if \<not> truthy img \<and> consecutive_fails st + 1 \<ge> 5 then [Sleep Cooldown] else []) @
        (if (completed st + 1) mod BATCH_SAVE_EVERY = 0
         then [Flush (AList.update url (to_json img) (results st))] else []),
      output_file :=
        (if (completed st + 1) mod BATCH_SAVE_EVERY = 0
         then Some (Doc (JObj (AList.update url (to_json img) (results st))))
         else output_file (env st))\<rparr>"
  by (simp add: record_result_def count_result_def Let_def flush_def log_event_def)

lemma update_keys: "fst ` set (AList.update k v d) = insert k (fst ` set d)"
  using dom_update [of k v d] by (simp add: dom_map_of_conv_image_fst)

lemma scrape_all_append:
  "scrape_all tr ex (xs @ ys) st =
     (case scrape_all tr ex xs st of
        (Some e, st') \<Rightarrow> (Some e, st')
      | (None, st') \<Rightarrow> scrape_all tr ex ys st')"
  by (induction xs arbitrary: st) (auto split: prod.splits option.splits)

lemma scrape_all_results:
  "\<exists>st'. scrape_all tr ex urls st = (None, st') \<and>
     fst ` set (results st') = fst ` set (results st) \<union> set urls \<and>
     (distinct (map fst (results st)) \<longrightarrow> distinct (map fst (results st'))) \<and>
     completed st' = completed st + int (length urls) \<and>
     catalog_file (env st') = catalog_file (env st)"
proof (induction urls arbitrary: st)
  case Nil
  then show ?case by simp
next
  case (Cons url urls)
  obtain img es where step: "scrape_one tr ex url st =
       (None, record_result url img (st\<lparr>env := (env st)\<lparr>trace := trace (env st) @ Sleep Delay # es\<rparr>\<rparr>))"
    by (rule scrape_one_step)
  define st1 where
    "st1 = record_result url img (st\<lparr>env := (env st)\<lparr>trace := trace (env st) @ Sleep Delay # es\<rparr>\<rparr>)"
  have r1: "results st1 = AList.update url (to_json img) (results st)"
    and c1: "completed st1 = completed st + 1"
    and f1: "catalog_file (env st1) = catalog_file (env st)"
    by (simp_all add: st1_def record_result_env)
  from Cons.IH [of st1] obtain st' where st':
    "scrape_all tr ex urls st1 = (None, st')"
    "fst ` set (results st') = fst ` set (results st1) \<union> set urls"
    "distinct (map fst (results st1)) \<longrightarrow> distinct (map fst (results st'))"
    "completed st' = completed st1 + int (length urls)"
    "catalog_file (env st') = catalog_file (env st1)"
    by blast
  have "scrape_all tr ex (url # urls) st = (None, st')"
    using step st'(1) by (simp add: st1_def)
  moreover have "fst ` set (results st') = fst ` set (results st) \<union> set (url # urls)"
    using st'(2) r1 by (simp add: update_keys)
  moreover have "distinct (map fst (results st)) \<longrightarrow> distinct (map fst (results st'))"
    using st'(3) r1 by (simp add: distinct_update)
  moreover have "completed st' = completed st + int (length (url # urls))"
    using st'(4) c1 by simp
  moreover have "catalog_file (env st') = catalog_file (env st)"
    using st'(5) f1 by simp
  ultimately show ?case by blast
qed

text \<open>After a turn that brings the count to a multiple of the batch size, the file holds
  the results and the write is the last event.\<close>

lemma scrape_all_flushed:
  assumes "urls \<noteq> []" "(completed st + int (length urls)) mod BATCH_SAVE_EVERY = 0"
    and "scrape_all tr ex urls st = (None, st')"
  shows "output_file (env st') = Some (Doc (JObj (results st'))) \<and>
         trace (env st') \<noteq> [] \<and> last (trace (env st')) = Flush (results st')"
  using assms
proof (induction urls arbitrary: st)
  case Nil
  then show ?case by simp
next
  case (Cons url urls)
  obtain img es where step: "scrape_one tr ex url st =
       (None, record_result url img (st\<lparr>env := (env st)\<lparr>trace := trace (env st) @ Sleep Delay # es\<rparr>\<rparr>))"
    by (rule scrape_one_step)
  define st1 where
    "st1 = record_result url img (st\<lparr>env := (env st)\<lparr>trace := trace (env st) @ Sleep Delay # es\<rparr>\<rparr>)"
  have rest: "scrape_all tr ex urls st1 = (None, st')"
    using Cons.prems(3) step by (simp add: st1_def)
  have c1: "completed st1 = completed st + 1"
    by (simp add: st1_def)
  show ?case
  proof (cases "urls = []")
    case True
    with rest have "st' = st1" by simp
    moreover have "(completed st + 1) mod BATCH_SAVE_EVERY = 0"
      using Cons.prems(2) True by simp
    ultimately show ?thesis
      by (simp add: st1_def record_result_env)
  next
    case False
    have "completed st1 + int (length urls) = completed st + int (length (url # urls))"
      using c1 by simp
    then have m: "(completed st1 + int (length urls)) mod BATCH_SAVE_EVERY = 0"
      using Cons.prems(2) by (simp only:)
    show ?thesis
      by (rule Cons.IH [OF False m rest])
  qed
qed

lemma fetch_event_spares: "list_all (fetch_event url) es \<Longrightarrow> url \<noteq> k \<Longrightarrow> list_all (spares k v) es"
proof (induction es)
  case Nil
  then show ?case by simp
next
  case (Cons e es)
  then have "fetch_event url e" by simp
  with Cons.prems(2) have "spares k v e"
    by (cases "(url, e)" rule: fetch_event.cases) auto
  with Cons show ?case by simp
qed

lemma scrape_all_spares:
  assumes "k \<notin> set urls" "map_of (results st) k = Some v"
  shows "\<exists>st' es. scrape_all tr ex urls st = (None, st') \<and> map_of (results st') k = Some v \<and>
           trace (env st') = trace (env st) @ es \<and> list_all (spares k v) es"
  using assms
proof (induction urls arbitrary: st)
  case Nil
  then show ?case by simp
next
  case (Cons url urls)
  from Cons.prems(1) have ne: "url \<noteq> k" and rest: "k \<notin> set urls"
    by auto
  obtain img es where step: "scrape_one tr ex url st =
       (None, record_result url img (st\<lparr>env := (env st)\<lparr>trace := trace (env st) @ Sleep Delay # es\<rparr>\<rparr>))"
    and es: "list_all (fetch_event url) es"
    by (rule scrape_one_step)
  define st1 where
    "st1 = record_result url img (st\<lparr>env := (env st)\<lparr>trace := trace (env st) @ Sleep Delay # es\<rparr>\<rparr>)"
  have kept: "map_of (AList.update url (to_json img) (results st)) k = Some v"
    using Cons.prems(2) ne by (simp add: update_conv')
  then have r1: "map_of (results st1) k = Some v"
    by (simp add: st1_def)
  define es1 where "es1 = Sleep Delay # es @
        (if \<not> truthy img \<and> consecutive_fails st + 1 \<ge> 5 then [Sleep Cooldown] else []) @
        (if (completed st + 1) mod BATCH_SAVE_EVERY = 0
         then [Flush (AList.update url (to_json img) (results st))] else [])"
  have t1: "trace (env st1) = trace (env st) @ es1"
    by (simp add: st1_def es1_def record_result_env)
  have s1: "list_all (spares k v) es1"
    using fetch_event_spares [OF es ne, of v] kept by (simp add: es1_def)
  from Cons.IH [OF rest r1] obtain st' es2 where st':
    "scrape_all tr ex urls st1 = (None, st')" "map_of (results st') k = Some v"
    "trace (env st') = trace (env st1) @ es2" "list_all (spares k v) es2"
    by blast
  have "scrape_all tr ex (url # urls) st = (None, st')"
    using step st'(1) by (simp add: st1_def)
  moreover have "trace (env st') = trace (env st) @ (es1 @ es2)"
    using st'(3) t1 by simp
  moreover have "list_all (spares k v) (es1 @ es2)"
    using s1 st'(4) by simp
  ultimately show ?case using st'(2) by blast
qed

lemma warm_up_world:
  "\<exists>es. warm_up tr w = w\<lparr>trace := trace w @ es\<rparr> \<and> set es \<subseteq> {WarmupRequest, Sleep Settle}"
  by (cases "tr (trace w) ''https://www.parfumo.com/''")
    (auto simp: warm_up_def log_event_def Let_def)

text \<open>The shape of a run that went past the loading of the two files.\<close>

lemma main_loaded:
  assumes "load_catalog w = Inr data" and "load_existing w = Inr existing"
  shows "main tr ex rnd w =
     (let pending = to_scrape rnd (catalog_urls data) existing in
      if pending = [] then (None, w)
      else
        (case scrape_all tr ex pending
                \<lparr>results = existing, completed = 0,
                 found = int (length existing), consecutive_fails = 0,
                 env = warm_up tr w\<rparr> of
           (Some e, st) \<Rightarrow> (Some e, env st)
         | (None, st) \<Rightarrow> (None, flush (results st) (env st))))"
  using assms by (simp add: main_def)

lemma load_raw_flush: "distinct (map fst d) \<Longrightarrow> load_raw (flush d w) = Inr d"
  by (simp add: load_raw_def flush_def log_event_def dict_of_pairs_dict)

lemma main_spares:
  assumes prior: "load_raw w = Inr raw" and entry: "map_of raw k = Some v" "v \<noteq> JNull"
  shows "\<exists>es raw'. trace (snd (main tr ex rnd w)) = trace w @ es \<and> list_all (spares k v) es \<and>
           load_raw (snd (main tr ex rnd w)) = Inr raw' \<and> map_of raw' k = Some v"
proof (cases "load_catalog w")
  case (Inl e)
  then have "main tr ex rnd w = (Some e, w)" by (simp add: main_def)
  with prior entry show ?thesis by simp
next
  case (Inr data)
  define existing where "existing = resolved_subset raw"
  define pending where "pending = to_scrape rnd (catalog_urls data) existing"
  define st0 where "st0 = \<lparr>results = existing, completed = 0,
      found = int (length existing), consecutive_fails = 0, env = warm_up tr w\<rparr>"
  have lex: "load_existing w = Inr existing"
    using prior by (simp add: load_existing_def existing_def)
  have d: "distinct (map fst raw)"
    using prior by (rule load_raw_distinct)
  have d0: "distinct (map fst existing)"
    using d by (simp add: existing_def resolved_subset_distinct)
  have e0: "map_of existing k = Some v"
    using resolved_subset_map_of [OF d, of k] entry by (simp add: existing_def)
  have "k \<in> fst ` set existing"
    using resolved_subset_keys [OF d, of k] entry by (simp add: existing_def)
  then have notp: "k \<notin> set pending"
    by (simp add: pending_def to_scrape_def)
  show ?thesis
  proof (cases "pending = []")
    case True
    then have "main tr ex rnd w = (None, w)"
      using main_loaded [OF Inr lex, of tr ex rnd] by (simp add: pending_def)
    with prior entry show ?thesis by simp
  next
    case False
    from scrape_all_spares [OF notp, of st0 v tr ex] e0 obtain st' es where st':
      "scrape_all tr ex pending st0 = (None, st')" "map_of (results st') k = Some v"
      "trace (env st') = trace (env st0) @ es" "list_all (spares k v) es"
      by (auto simp: st0_def)
    from scrape_all_results [of tr ex pending st0] st'(1) d0
    have d': "distinct (map fst (results st'))"
      by (auto simp: st0_def)
    obtain wes where wes: "warm_up tr w = w\<lparr>trace := trace w @ wes\<rparr>"
      "set wes \<subseteq> {WarmupRequest, Sleep Settle}"
      using warm_up_world by blast
    have m: "main tr ex rnd w = (None, flush (results st') (env st'))"
      using main_loaded [OF Inr lex, of tr ex rnd] False st'(1)
      by (simp add: pending_def st0_def)
    have "trace (snd (main tr ex rnd w)) = trace w @ (wes @ es @ [Flush (results st')])"
      using m st'(3) wes(1) by (simp add: flush_def log_event_def st0_def)
    moreover have "list_all (spares k v) wes"
      using wes(2) by (auto simp: list_all_iff)
    then have "list_all (spares k v) (wes @ es @ [Flush (results st')])"
      using st'(4) st'(2) by simp
    moreover have "load_raw (snd (main tr ex rnd w)) = Inr (results st')"
      using m d' by (simp add: load_raw_flush)
    ultimately show ?thesis using st'(2) by blast
  qed
qed

lemma scrape_all_other_keys:
  "k \<notin> set urls \<Longrightarrow> scrape_all tr ex urls st = (None, st') \<Longrightarrow>
   map_of (results st') k = map_of (results st) k"
proof (induction urls arbitrary: st)
  case Nil
  then show ?case by simp
next
  case (Cons url urls)
  obtain img es where step: "scrape_one tr ex url st =
       (None, record_result url img (st\<lparr>env := (env st)\<lparr>trace := trace (env st) @ Sleep Delay # es\<rparr>\<rparr>))"
    by (rule scrape_one_step)
  define st1 where
    "st1 = record_result url img (st\<lparr>env := (env st)\<lparr>trace := trace (env st) @ Sleep Delay # es\<rparr>\<rparr>)"
  have "scrape_all tr ex urls st1 = (None, st')"
    using Cons.prems(2) step by (simp add: st1_def)
  with Cons have "map_of (results st') k = map_of (results st1) k"
    by simp
  also have "\<dots> = map_of (results st) k"
    using Cons.prems(1) by (simp add: st1_def update_conv')
  finally show ?case .
qed

text \<open>The value stored for a target is what its fetch returned, in the world the loop
  had reached, unless the target comes again later in the list.\<close>

lemma scrape_all_values:
  assumes run: "scrape_all tr ex urls st = (None, st')"
    and i: "i < length urls" and last: "urls ! i \<notin> set (drop (Suc i) urls)"
  shows "\<exists>sti img w'. scrape_all tr ex (take i urls) st = (None, sti) \<and>
           fetch_image_url tr ex (urls ! i) 0 (log_event (Sleep Delay) (env sti)) = (Inr img, w') \<and>
           map_of (results st') (urls ! i) =
             Some (case img of None \<Rightarrow> JNull | Some ref \<Rightarrow> JStr ref)"
proof -
  obtain sti where sti: "scrape_all tr ex (take i urls) st = (None, sti)"
    using scrape_all_results [of tr ex "take i urls" st] by blast
  have split: "urls = take i urls @ urls ! i # drop (Suc i) urls"
    using i by (rule id_take_nth_drop)
  have "scrape_all tr ex urls st = scrape_all tr ex (urls ! i # drop (Suc i) urls) sti"
    using scrape_all_append [of tr ex "take i urls" "urls ! i # drop (Suc i) urls" st] sti split
    by simp
  with run have rest: "scrape_all tr ex (urls ! i # drop (Suc i) urls) sti = (None, st')"
    by simp
  obtain img es where step: "scrape_one tr ex (urls ! i) sti =
       (None, record_result (urls ! i) img
          (sti\<lparr>env := (env sti)\<lparr>trace := trace (env sti) @ Sleep Delay # es\<rparr>\<rparr>))"
    and f: "fetch_image_url tr ex (urls ! i) 0 (log_event (Sleep Delay) (env sti)) =
       (Inr img, (env sti)\<lparr>trace := trace (env sti) @ Sleep Delay # es\<rparr>)"
    by (rule scrape_one_step)
  define st1 where "st1 = record_result (urls ! i) img
          (sti\<lparr>env := (env sti)\<lparr>trace := trace (env sti) @ Sleep Delay # es\<rparr>\<rparr>)"
  have tail: "scrape_all tr ex (drop (Suc i) urls) st1 = (None, st')"
    using rest step by (simp add: st1_def)
  have "map_of (results st') (urls ! i) = map_of (results st1) (urls ! i)"
    using scrape_all_other_keys [OF last tail] .
  also have "\<dots> = Some (to_json img)"
    by (simp add: st1_def update_conv')
  also have "to_json img = (case img of None \<Rightarrow> JNull | Some ref \<Rightarrow> JStr ref)"
    by (simp add: to_json_def)
  finally show ?thesis
    using sti f by blast
qed

lemma to_scrape_distinct: "distinct (to_scrape rnd (catalog_urls data) existing)"
proof -
  have "distinct (filter (\<lambda>u. u \<notin> fst ` set existing) (catalog_urls data))"
    by (simp add: catalog_urls_def)
  then show ?thesis
    unfolding to_scrape_def using shuffle_mset mset_eq_imp_distinct_iff by blast
qed

lemma fetch_image_url_value:
  "fst (fetch_image_url tr ex url a w) = Inr (Some u) \<Longrightarrow> \<exists>html. ex html = Inr (Some u)"
proof (induction tr ex url a w rule: fetch_image_url.induct)
  case (1 tr ex url attempt w)
  obtain r w1 where fa: "fetch_attempt tr ex url attempt w = (r, w1)"
    by (cases "fetch_attempt tr ex url attempt w")
  show ?case
  proof (cases r)
    case (Inr img)
    with fa "1.prems" have "r = Inr (Some u)"
      by (simp add: fetch_image_url_found)
    with fa show ?thesis
      by (auto simp: fetch_attempt_def Let_def split: sum.splits)
  next
    case (Inl e)
    show ?thesis
    proof (cases e)
      case (OtherException name)
      with Inl fa "1.prems" show ?thesis by (simp add: fetch_image_url_other)
    next
      case (HTTPError code)
      show ?thesis
      proof (cases "(code = 429 \<or> code = 403) \<and> attempt < MAX_RETRIES")
        case False
        with HTTPError Inl fa "1.prems" show ?thesis
          by (simp add: fetch_image_url_give_up [where c = code])
      next
        case True
        have "fetch_image_url tr ex url attempt w =
           fetch_image_url tr ex url (attempt + 1) (log_event (Sleep (Backoff attempt)) w1)"
          using fetch_image_url_retry fa Inl HTTPError True by blast
        with "1.IH" [OF fa [symmetric] Inl HTTPError True] "1.prems" show ?thesis
          by simp
      qed
    qed
  qed
qed

lemma cooldowns_append [simp]: "cooldowns (xs @ ys) = cooldowns xs + cooldowns ys"
  by (simp add: cooldowns_def)

lemma cooldowns_Cons [simp]:
  "cooldowns (e # es) = (if e = Sleep Cooldown then 1 else 0) + cooldowns es"
  by (simp add: cooldowns_def)

lemma cooldowns_Nil [simp]: "cooldowns [] = 0"
  by (simp add: cooldowns_def)

lemma fetch_event_cooldowns: "list_all (fetch_event url) es \<Longrightarrow> cooldowns es = 0"
  by (induction es) auto

lemma streak_mod: "0 \<le> (c::int) \<Longrightarrow> c < 5 \<Longrightarrow> (if c + 1 \<ge> 5 then 0 else c + 1) = (c + 1) mod 5"
  by presburger

lemma streak_div:
  "0 \<le> (c::int) \<Longrightarrow> c < 5 \<Longrightarrow> (if c + 1 \<ge> 5 then 1 else 0) = nat ((c + 1) div 5)"
proof -
  assume "0 \<le> c" "c < 5"
  then have "(c + 1) div 5 = (if c + 1 \<ge> 5 then 1 else 0)"
    by presburger
  then show ?thesis by simp
qed

lemma div_five_split: "((a::int) + n) div 5 = a div 5 + (a mod 5 + n) div 5"
proof -
  have "a + n = (a mod 5 + n) + (a div 5) * 5"
    using div_mult_mod_eq [of a 5] by linarith
  then have "(a + n) div 5 = ((a mod 5 + n) + (a div 5) * 5) div 5"
    by (rule arg_cong)
  also have "\<dots> = a div 5 + (a mod 5 + n) div 5"
    by (rule div_mult_self1) simp
  finally show ?thesis .
qed

text \<open>A run of the loop over targets whose fetch returns null, from a streak below five.\<close>

lemma scrape_all_nulls:
  assumes "\<forall>u\<in>set urls. \<forall>w. fst (fetch_image_url tr ex u 0 w) = Inr None"
    and "0 \<le> consecutive_fails st" "consecutive_fails st < 5"
  shows "\<exists>st' es. scrape_all tr ex urls st = (None, st') \<and>
           trace (env st') = trace (env st) @ es \<and>
           consecutive_fails st' = (consecutive_fails st + int (length urls)) mod 5 \<and>
           cooldowns es = nat ((consecutive_fails st + int (length urls)) div 5)"
  using assms
proof (induction urls arbitrary: st)
  case Nil
  then show ?case by simp
next
  case (Cons url urls)
  obtain img es where step: "scrape_one tr ex url st =
       (None, record_result url img (st\<lparr>env := (env st)\<lparr>trace := trace (env st) @ Sleep Delay # es\<rparr>\<rparr>))"
    and es: "list_all (fetch_event url) es"
    and f: "fetch_image_url tr ex url 0 (log_event (Sleep Delay) (env st)) =
       (Inr img, (env st)\<lparr>trace := trace (env st) @ Sleep Delay # es\<rparr>)"
    by (rule scrape_one_step)
  from Cons.prems(1) have "fst (fetch_image_url tr ex url 0 (log_event (Sleep Delay) (env st))) = Inr None"
    by simp
  with f have img: "img = None"
    by simp
  define st1 where
    "st1 = record_result url img (st\<lparr>env := (env st)\<lparr>trace := trace (env st) @ Sleep Delay # es\<rparr>\<rparr>)"
  define es1 where "es1 = Sleep Delay # es @
        (if consecutive_fails st + 1 \<ge> 5 then [Sleep Cooldown] else []) @
        (if (completed st + 1) mod BATCH_SAVE_EVERY = 0
         then [Flush (AList.update url (to_json img) (results st))] else [])"
  have t1: "trace (env st1) = trace (env st) @ es1"
    by (simp add: st1_def es1_def record_result_env img truthy_def)
  have c1: "consecutive_fails st1 = (consecutive_fails st + 1) mod 5"
  proof -
    have "consecutive_fails st1 =
        (if consecutive_fails st + 1 \<ge> 5 then 0 else consecutive_fails st + 1)"
      by (simp add: st1_def record_result_consecutive_fails img truthy_def)
    also have "\<dots> = (consecutive_fails st + 1) mod 5"
      using Cons.prems(2,3) by (rule streak_mod)
    finally show ?thesis .
  qed
  have n1: "cooldowns es1 = nat ((consecutive_fails st + 1) div 5)"
  proof -
    have "cooldowns es1 = (if consecutive_fails st + 1 \<ge> 5 then 1 else 0)"
      using fetch_event_cooldowns [OF es] by (simp add: es1_def)
    also have "\<dots> = nat ((consecutive_fails st + 1) div 5)"
      using Cons.prems(2,3) by (rule streak_div)
    finally show ?thesis .
  qed
  have r1: "0 \<le> consecutive_fails st1" "consecutive_fails st1 < 5"
    using c1 by simp_all
  from Cons.prems(1) have "\<forall>u\<in>set urls. \<forall>w. fst (fetch_image_url tr ex u 0 w) = Inr None"
    by simp
  from Cons.IH [OF this r1] obtain st' es2 where st':
    "scrape_all tr ex urls st1 = (None, st')"
    "trace (env st') = trace (env st1) @ es2"
    "consecutive_fails st' = (consecutive_fails st1 + int (length urls)) mod 5"
    "cooldowns es2 = nat ((consecutive_fails st1 + int (length urls)) div 5)"
    by blast
  have "scrape_all tr ex (url # urls) st = (None, st')"
    using step st'(1) by (simp add: st1_def)
  moreover have "trace (env st') = trace (env st) @ (es1 @ es2)"
    using st'(2) t1 by simp
  moreover have "consecutive_fails st' = (consecutive_fails st + int (length (url # urls))) mod 5"
  proof -
    have "consecutive_fails st' = ((consecutive_fails st + 1) mod 5 + int (length urls)) mod 5"
      using st'(3) c1 by simp
    also have "\<dots> = (consecutive_fails st + 1 + int (length urls)) mod 5"
      by (rule mod_add_left_eq)
    also have "consecutive_fails st + 1 + int (length urls) =
        consecutive_fails st + int (length (url # urls))"
      by simp
    finally show ?thesis .
  qed
  moreover have "cooldowns (es1 @ es2) =
      nat ((consecutive_fails st + int (length (url # urls))) div 5)"
  proof -
    have p1: "0 \<le> (consecutive_fails st + 1) div 5"
      using Cons.prems(2) by simp
    have p2: "0 \<le> ((consecutive_fails st + 1) mod 5 + int (length urls)) div 5"
      by simp
    have "cooldowns (es1 @ es2) = nat ((consecutive_fails st + 1) div 5) +
        nat (((consecutive_fails st + 1) mod 5 + int (length urls)) div 5)"
      using st'(4) n1 c1 by simp
    also have "\<dots> = nat ((consecutive_fails st + 1) div 5 +
        ((consecutive_fails st + 1) mod 5 + int (length urls)) div 5)"
      using p1 p2 by (simp only: nat_add_distrib)
    also have "(consecutive_fails st + 1) div 5 +
        ((consecutive_fails st + 1) mod 5 + int (length urls)) div 5 =
        (consecutive_fails st + 1 + int (length urls)) div 5"
      by (rule div_five_split [symmetric])
    also have "consecutive_fails st + 1 + int (length urls) =
        consecutive_fails st + int (length (url # urls))"
      by simp
    finally show ?thesis .
  qed
  ultimately show ?case by blast
qed

lemma to_scrape_set:
  "set (to_scrape rnd urls existing) = {u \<in> set urls. u \<notin> fst ` set existing}"
  by (auto simp: to_scrape_def)

lemma load_existing_raw:
  "load_existing w = Inr existing \<Longrightarrow> \<exists>raw. load_raw w = Inr raw \<and> existing = resolved_subset raw"
  by (cases "load_raw w") (simp_all add: load_existing_def)

lemma warm_up_files:
  "catalog_file (warm_up tr w) = catalog_file w \<and> output_file (warm_up tr w) = output_file w"
  using warm_up_world [of tr w] by auto

subsection \<open>Entries of the prior store\<close>

text \<open>
  C10. For every target \<open>k\<close> that the prior store maps to a value \<open>v\<close> other than
  null, whether the catalogue still lists it or not: the run sends no request for the
  page of \<open>k\<close>, every write of the run, the last one included, writes \<open>k\<close> with the
  value \<open>v\<close>, and the store the run leaves maps \<open>k\<close> to \<open>v\<close>.
\<close>

theorem prior_entries_preserved:
  assumes "load_raw w = Inr raw" and "map_of raw k = Some v" and "v \<noteq> JNull"
  shows "(\<forall>a. FetchRequest k a \<notin> set (added w (snd (main tr ex rnd w)))) \<and>
         (\<forall>d. Flush d \<in> set (added w (snd (main tr ex rnd w))) \<longrightarrow> map_of d k = Some v) \<and>
         (\<exists>raw'. load_raw (snd (main tr ex rnd w)) = Inr raw' \<and> map_of raw' k = Some v)"
proof -
  from main_spares [OF assms, of tr ex rnd] obtain es raw' where es:
    "trace (snd (main tr ex rnd w)) = trace w @ es" "list_all (spares k v) es"
    "load_raw (snd (main tr ex rnd w)) = Inr raw'" "map_of raw' k = Some v"
    by blast
  have a: "added w (snd (main tr ex rnd w)) = es"
    using es(1) by simp
  have "FetchRequest k a \<notin> set es" for a
    using es(2) by (auto simp: list_all_iff)
  moreover have "map_of d k = Some v" if "Flush d \<in> set es" for d
    using es(2) that by (auto simp: list_all_iff)
  ultimately show ?thesis
    using es(3,4) unfolding a by blast
qed

theorem prior_entries_preserved_witness:
  "FetchRequest ''http://x/b'' 0 \<notin> set (added
      \<lparr>catalog_file = Some (Doc [\<lparr>canonical_url = Some ''http://x/a''\<rparr>]),
        output_file = Some (Doc (JObj [(''http://x/b'', JStr ''ref'')])), trace = []\<rparr>
      (snd (main (\<lambda>t u. Inr ''<html>'') extract_image_url (\<lambda>n. 0)
        \<lparr>catalog_file = Some (Doc [\<lparr>canonical_url = Some ''http://x/a''\<rparr>]),
          output_file = Some (Doc (JObj [(''http://x/b'', JStr ''ref'')])), trace = []\<rparr>))) \<and>
   (\<exists>raw'. load_raw (snd (main (\<lambda>t u. Inr ''<html>'') extract_image_url (\<lambda>n. 0)
        \<lparr>catalog_file = Some (Doc [\<lparr>canonical_url = Some ''http://x/a''\<rparr>]),
          output_file = Some (Doc (JObj [(''http://x/b'', JStr ''ref'')])), trace = []\<rparr>)) = Inr raw' \<and>
      map_of raw' ''http://x/b'' = Some (JStr ''ref''))"
proof -
  have prior: "load_raw
      \<lparr>catalog_file = Some (Doc [\<lparr>canonical_url = Some ''http://x/a''\<rparr>]),
        output_file = Some (Doc (JObj [(''http://x/b'', JStr ''ref'')])), trace = []\<rparr> =
      Inr [(''http://x/b'', JStr ''ref'')]"
    by (simp add: load_raw_def dict_of_pairs_def)
  have entry: "map_of [(''http://x/b'', JStr ''ref'')] ''http://x/b'' = Some (JStr ''ref'')"
    by simp
  have "JStr ''ref'' \<noteq> JNull"
    by simp
  from prior_entries_preserved [OF prior entry this] show ?thesis
    by blast
qed

subsection \<open>Writes of the store\<close>

text \<open>The example transport: an image for every page but one.\<close>

lemma example_page_image:
  "extract_image_url example_page = Inr (Some ''https://media.parfumo.com/p.jpg'')"
  by code_simp

lemma example_fetch_found:
  "u \<noteq> ''http://x/b'' \<Longrightarrow>
   fst (fetch_image_url example_transport extract_image_url u 0 w) =
     Inr (Some ''https://media.parfumo.com/p.jpg'')"
  by (simp add: fetch_image_url.simps [of _ _ u 0 w] fetch_attempt_def Let_def
      example_transport_def example_page_image)

lemma example_fetch_failed:
  "fst (fetch_image_url example_transport ex ''http://x/b'' 0 w) = Inr None"
  by (simp add: fetch_image_url.simps [of _ _ _ 0 w] fetch_attempt_def Let_def
      example_transport_def)

text \<open>
  C9. When the loop, started with the count at zero, has processed exactly
  \<open>BATCH_SAVE_EVERY = 20\<close> targets, it has just written the store: the write is the last
  event, the output file holds the results, and loading the file again gives a
  dictionary with an entry for every one of those targets. The entry of a target (of its
  last occurrence in the list) is the result of its fetch, in the world the loop had
  reached when it came to the target: the address as a string, or null; the other keys
  keep their values. A longer run goes on from that state. And when the pending list is
  not empty, \<^verbatim>\<open>main\<close> ends with a write of the full results after the loop: for every
  pending target the result of its fetch, and the entries of the prior store unchanged.
\<close>

theorem flush_durability:
  "(completed st = 0 \<and> int (length urls) = BATCH_SAVE_EVERY \<and> distinct (map fst (results st)) \<longrightarrow>
      (\<exists>st'. scrape_all tr ex urls st = (None, st') \<and>
         (\<forall>rest. scrape_all tr ex (urls @ rest) st = scrape_all tr ex rest st') \<and>
         output_file (env st') = Some (Doc (JObj (results st'))) \<and>
         last (trace (env st')) = Flush (results st') \<and>
         load_raw (env st') = Inr (results st') \<and>
         set urls \<subseteq> fst ` set (results st') \<and>
         (\<forall>i. i < length urls \<and> urls ! i \<notin> set (drop (Suc i) urls) \<longrightarrow>
            (\<exists>sti img w'. scrape_all tr ex (take i urls) st = (None, sti) \<and>
               fetch_image_url tr ex (urls ! i) 0 (log_event (Sleep Delay) (env sti)) =
                 (Inr img, w') \<and>
               map_of (results st') (urls ! i) =
                 Some (case img of None \<Rightarrow> JNull | Some ref \<Rightarrow> JStr ref))) \<and>
         (\<forall>k. k \<notin> set urls \<longrightarrow> map_of (results st') k = map_of (results st) k))) \<and>
   (load_catalog w = Inr data \<and> load_existing w = Inr existing \<and>
    to_scrape rnd (catalog_urls data) existing \<noteq> [] \<longrightarrow>
      (\<exists>st'. scrape_all tr ex (to_scrape rnd (catalog_urls data) existing)
                \<lparr>results = existing, completed = 0, found = int (length existing),
                 consecutive_fails = 0, env = warm_up tr w\<rparr> = (None, st') \<and>
         main tr ex rnd w = (None, flush (results st') (env st')) \<and>
         output_file (snd (main tr ex rnd w)) = Some (Doc (JObj (results st'))) \<and>
         last (trace (snd (main tr ex rnd w))) = Flush (results st') \<and>
         fst ` set (results st') =
           fst ` set existing \<union> set (to_scrape rnd (catalog_urls data) existing) \<and>
         (\<forall>i. i < length (to_scrape rnd (catalog_urls data) existing) \<longrightarrow>
            (\<exists>sti img w'.
               scrape_all tr ex (take i (to_scrape rnd (catalog_urls data) existing))
                 \<lparr>results = existing, completed = 0, found = int (length existing),
                  consecutive_fails = 0, env = warm_up tr w\<rparr> = (None, sti) \<and>
               fetch_image_url tr ex (to_scrape rnd (catalog_urls data) existing ! i) 0
                 (log_event (Sleep Delay) (env sti)) = (Inr img, w') \<and>
               map_of (results st') (to_scrape rnd (catalog_urls data) existing ! i) =
                 Some (case img of None \<Rightarrow> JNull | Some ref \<Rightarrow> JStr ref))) \<and>
         (\<forall>k. k \<notin> set (to_scrape rnd (catalog_urls data) existing) \<longrightarrow>
            map_of (results st') k = map_of existing k)))"
proof (intro conjI impI)
  assume a: "completed st = 0 \<and> int (length urls) = BATCH_SAVE_EVERY \<and>
    distinct (map fst (results st))"
  from scrape_all_results [of tr ex urls st] a obtain st' where st':
    "scrape_all tr ex urls st = (None, st')"
    "fst ` set (results st') = fst ` set (results st) \<union> set urls"
    "distinct (map fst (results st'))"
    by blast
  from a have ne: "urls \<noteq> []" and m: "(completed st + int (length urls)) mod BATCH_SAVE_EVERY = 0"
    by (auto simp: BATCH_SAVE_EVERY_def)
  from scrape_all_flushed [OF ne m st'(1)]
  have fl: "output_file (env st') = Some (Doc (JObj (results st')))"
    "last (trace (env st')) = Flush (results st')"
    by simp_all
  have "load_raw (env st') = Inr (results st')"
    using fl(1) st'(3) by (simp add: load_raw_def dict_of_pairs_dict)
  moreover have "scrape_all tr ex (urls @ rest) st = scrape_all tr ex rest st'" for rest
    using st'(1) by (simp add: scrape_all_append)
  moreover have "\<exists>sti img w'. scrape_all tr ex (take i urls) st = (None, sti) \<and>
               fetch_image_url tr ex (urls ! i) 0 (log_event (Sleep Delay) (env sti)) =
                 (Inr img, w') \<and>
               map_of (results st') (urls ! i) =
                 Some (case img of None \<Rightarrow> JNull | Some ref \<Rightarrow> JStr ref)"
    if "i < length urls \<and> urls ! i \<notin> set (drop (Suc i) urls)" for i
    using scrape_all_values [OF st'(1), of i] that by simp
  moreover have "map_of (results st') k = map_of (results st) k" if "k \<notin> set urls" for k
    using scrape_all_other_keys [OF that st'(1)] .
  ultimately show "\<exists>st'. scrape_all tr ex urls st = (None, st') \<and>
         (\<forall>rest. scrape_all tr ex (urls @ rest) st = scrape_all tr ex rest st') \<and>
         output_file (env st') = Some (Doc (JObj (results st'))) \<and>
         last (trace (env st')) = Flush (results st') \<and>
         load_raw (env st') = Inr (results st') \<and>
         set urls \<subseteq> fst ` set (results st') \<and>
         (\<forall>i. i < length urls \<and> urls ! i \<notin> set (drop (Suc i) urls) \<longrightarrow>
            (\<exists>sti img w'. scrape_all tr ex (take i urls) st = (None, sti) \<and>
               fetch_image_url tr ex (urls ! i) 0 (log_event (Sleep Delay) (env sti)) =
                 (Inr img, w') \<and>
               map_of (results st') (urls ! i) =
                 Some (case img of None \<Rightarrow> JNull | Some ref \<Rightarrow> JStr ref))) \<and>
         (\<forall>k. k \<notin> set urls \<longrightarrow> map_of (results st') k = map_of (results st) k)"
    using st'(1,2) fl by (intro exI [of _ st']) simp
next
  assume a: "load_catalog w = Inr data \<and> load_existing w = Inr existing \<and>
    to_scrape rnd (catalog_urls data) existing \<noteq> []"
  define pending where "pending = to_scrape rnd (catalog_urls data) existing"
  define st0 where "st0 = \<lparr>results = existing, completed = 0, found = int (length existing),
                 consecutive_fails = 0, env = warm_up tr w\<rparr>"
  from scrape_all_results [of tr ex pending st0] obtain st' where st':
    "scrape_all tr ex pending st0 = (None, st')"
    "fst ` set (results st') = fst ` set (results st0) \<union> set pending"
    by blast
  have m: "main tr ex rnd w = (None, flush (results st') (env st'))"
    using main_loaded [of w data existing tr ex rnd] a st'(1)
    by (simp add: pending_def st0_def)
  then have out: "output_file (snd (main tr ex rnd w)) = Some (Doc (JObj (results st')))"
    "last (trace (snd (main tr ex rnd w))) = Flush (results st')"
    by (simp_all add: flush_def log_event_def)
  have d: "distinct pending"
    unfolding pending_def by (rule to_scrape_distinct)
  have vals: "\<exists>sti img w'. scrape_all tr ex (take i pending) st0 = (None, sti) \<and>
               fetch_image_url tr ex (pending ! i) 0 (log_event (Sleep Delay) (env sti)) =
                 (Inr img, w') \<and>
               map_of (results st') (pending ! i) =
                 Some (case img of None \<Rightarrow> JNull | Some ref \<Rightarrow> JStr ref)"
    if "i < length pending" for i
  proof -
    have "pending ! i \<notin> set (drop (Suc i) pending)"
      using d that by (metis Cons_nth_drop_Suc distinct.simps(2) distinct_drop)
    with scrape_all_values [OF st'(1) that] show ?thesis by simp
  qed
  have others: "map_of (results st') k = map_of existing k" if "k \<notin> set pending" for k
    using scrape_all_other_keys [OF that st'(1)] by (simp add: st0_def)
  have keys: "fst ` set (results st') = fst ` set existing \<union> set pending"
    using st'(2) by (simp add: st0_def)
  show "\<exists>st'. scrape_all tr ex (to_scrape rnd (catalog_urls data) existing)
                \<lparr>results = existing, completed = 0, found = int (length existing),
                 consecutive_fails = 0, env = warm_up tr w\<rparr> = (None, st') \<and>
         main tr ex rnd w = (None, flush (results st') (env st')) \<and>
         output_file (snd (main tr ex rnd w)) = Some (Doc (JObj (results st'))) \<and>
         last (trace (snd (main tr ex rnd w))) = Flush (results st') \<and>
         fst ` set (results st') =
           fst ` set existing \<union> set (to_scrape rnd (catalog_urls data) existing) \<and>
         (\<forall>i. i < length (to_scrape rnd (catalog_urls data) existing) \<longrightarrow>
            (\<exists>sti img w'.
               scrape_all tr ex (take i (to_scrape rnd (catalog_urls data) existing))
                 \<lparr>results = existing, completed = 0, found = int (length existing),
                  consecutive_fails = 0, env = warm_up tr w\<rparr> = (None, sti) \<and>
               fetch_image_url tr ex (to_scrape rnd (catalog_urls data) existing ! i) 0
                 (log_event (Sleep Delay) (env sti)) = (Inr img, w') \<and>
               map_of (results st') (to_scrape rnd (catalog_urls data) existing ! i) =
                 Some (case img of None \<Rightarrow> JNull | Some ref \<Rightarrow> JStr ref))) \<and>
         (\<forall>k. k \<notin> set (to_scrape rnd (catalog_urls data) existing) \<longrightarrow>
            map_of (results st') k = map_of existing k)"
    using st'(1) m out keys vals others
    unfolding pending_def [symmetric] st0_def [symmetric]
    by (intro exI [of _ st']) simp
qed

theorem flush_durability_witness:
  "(\<exists>st'. scrape_all example_transport extract_image_url example_targets
        \<lparr>results = [], completed = 0, found = 0, consecutive_fails = 0,
         env = \<lparr>catalog_file = None, output_file = None, trace = []\<rparr>\<rparr> = (None, st') \<and>
      load_raw (env st') = Inr (results st') \<and>
      set example_targets \<subseteq> fst ` set (results st') \<and>
      map_of (results st') ''http://x/a'' = Some (JStr ''https://media.parfumo.com/p.jpg'') \<and>
      map_of (results st') ''http://x/b'' = Some JNull) \<and>
   last (trace (snd (main example_transport extract_image_url (\<lambda>n. 0)
      \<lparr>catalog_file = Some (Doc [\<lparr>canonical_url = Some ''http://x/a''\<rparr>,
                                  \<lparr>canonical_url = Some ''http://x/b''\<rparr>]),
       output_file = None, trace = []\<rparr>))) =
     Flush [(''http://x/b'', JNull), (''http://x/a'', JStr ''https://media.parfumo.com/p.jpg'')]"
proof -
  let ?st = "\<lparr>results = [], completed = 0, found = 0, consecutive_fails = 0,
         env = \<lparr>catalog_file = None, output_file = None, trace = []\<rparr>\<rparr>"
  let ?data = "[\<lparr>canonical_url = Some ''http://x/a''\<rparr>, \<lparr>canonical_url = Some ''http://x/b''\<rparr>]"
  let ?w = "\<lparr>catalog_file = Some (Doc ?data), output_file = None, trace = []\<rparr>"
  have h1: "completed ?st = 0 \<and> int (length example_targets) = BATCH_SAVE_EVERY \<and>
      distinct (map fst (results ?st))"
    by (simp add: BATCH_SAVE_EVERY_def example_targets_def)
  have h2: "load_catalog ?w = Inr ?data \<and> load_existing ?w = Inr [] \<and>
      to_scrape (\<lambda>n. 0) (catalog_urls ?data) [] \<noteq> []"
    by (simp add: load_catalog_def load_existing_def load_raw_def resolved_subset_def
        to_scrape_def catalog_urls_def)
  note inst = flush_durability [of ?st example_targets example_transport extract_image_url
      ?w ?data "[]" "\<lambda>n. 0"]
  from inst [THEN conjunct1, rule_format, OF h1] obtain st' where st':
    "scrape_all example_transport extract_image_url example_targets ?st = (None, st')"
    "load_raw (env st') = Inr (results st')"
    "set example_targets \<subseteq> fst ` set (results st')"
    and vals: "\<And>i. i < length example_targets \<and>
        example_targets ! i \<notin> set (drop (Suc i) example_targets) \<Longrightarrow>
        \<exists>sti img w'. scrape_all example_transport extract_image_url (take i example_targets) ?st =
               (None, sti) \<and>
           fetch_image_url example_transport extract_image_url (example_targets ! i) 0
               (log_event (Sleep Delay) (env sti)) = (Inr img, w') \<and>
           map_of (results st') (example_targets ! i) =
               Some (case img of None \<Rightarrow> JNull | Some ref \<Rightarrow> JStr ref)"
    by blast
  have "0 < length example_targets \<and>
      example_targets ! 0 \<notin> set (drop (Suc 0) example_targets)"
    by (simp add: example_targets_def)
  from vals [OF this] obtain sti0 :: run and img0 w0 where
    "fetch_image_url example_transport extract_image_url (example_targets ! 0) 0
       (log_event (Sleep Delay) (env sti0)) = (Inr img0, w0)"
    "map_of (results st') (example_targets ! 0) =
       Some (case img0 of None \<Rightarrow> JNull | Some ref \<Rightarrow> JStr ref)"
    by blast
  moreover have "example_targets ! 0 = ''http://x/a''"
    by (simp add: example_targets_def)
  ultimately have a: "map_of (results st') ''http://x/a'' =
      Some (JStr ''https://media.parfumo.com/p.jpg'')"
    using example_fetch_found [of "''http://x/a''" "log_event (Sleep Delay) (env sti0)"]
    by simp
  have "1 < length example_targets \<and>
      example_targets ! 1 \<notin> set (drop (Suc 1) example_targets)"
    by (simp add: example_targets_def)
  from vals [OF this] obtain sti1 :: run and img1 w1 where
    "fetch_image_url example_transport extract_image_url (example_targets ! 1) 0
       (log_event (Sleep Delay) (env sti1)) = (Inr img1, w1)"
    "map_of (results st') (example_targets ! 1) =
       Some (case img1 of None \<Rightarrow> JNull | Some ref \<Rightarrow> JStr ref)"
    by blast
  moreover have "example_targets ! 1 = ''http://x/b''"
    by (simp add: example_targets_def)
  ultimately have b: "map_of (results st') ''http://x/b'' = Some JNull"
    using example_fetch_failed [of extract_image_url "log_event (Sleep Delay) (env sti1)"]
    by simp
  from inst [THEN conjunct2, rule_format, OF h2] obtain st2 :: run where st2:
    "main example_transport extract_image_url (\<lambda>n. 0) ?w = (None, flush (results st2) (env st2))"
    "last (trace (snd (main example_transport extract_image_url (\<lambda>n. 0) ?w))) =
       Flush (results st2)"
    by blast
  have "output_file (snd (main example_transport extract_image_url (\<lambda>n. 0) ?w)) =
      Some (Doc (JObj [(''http://x/b'', JNull),
        (''http://x/a'', JStr ''https://media.parfumo.com/p.jpg'')]))"
    by code_simp
  with st2(1) have "results st2 = [(''http://x/b'', JNull),
        (''http://x/a'', JStr ''https://media.parfumo.com/p.jpg'')]"
    by (simp add: flush_def log_event_def)
  with st2(2) have "last (trace (snd (main example_transport extract_image_url (\<lambda>n. 0) ?w))) =
     Flush [(''http://x/b'', JNull), (''http://x/a'', JStr ''https://media.parfumo.com/p.jpg'')]"
    by simp
  with st' a b show ?thesis by blast
qed

subsection \<open>The streak of failures\<close>

text \<open>
  C6. A turn of the loop whose result is not null (the stored value is not null) leaves
  the counter of consecutive failures at 0 and takes no cool-down sleep: the address the
  extraction returns is never the empty string, so it is true in \<^verbatim>\<open>if img:\<close>. From a
  counter \<open>c\<close> with \<open>0 \<le> c < 5\<close> (it starts at 0 and never leaves that range), a run of
  \<open>n\<close> turns that all give null leaves the counter at \<open>(c + n) mod 5\<close> and takes
  \<open>(c + n) div 5\<close> cool-down sleeps: from 0, five nulls take exactly one sleep and leave
  0, a sixth null leaves 1 with no further sleep, and the next sleep comes with the
  tenth.
\<close>

theorem cooldown_at_threshold:
  "(\<forall>st'. scrape_one tr extract_image_url url st = (None, st') \<and>
        map_of (results st') url \<noteq> Some JNull \<longrightarrow>
        consecutive_fails st' = 0 \<and> cooldowns (added (env st) (env st')) = 0) \<and>
   (0 \<le> consecutive_fails st \<and> consecutive_fails st < 5 \<and>
    (\<forall>u\<in>set urls. \<forall>w. fst (fetch_image_url tr ex u 0 w) = Inr None) \<longrightarrow>
      fst (scrape_all tr ex urls st) = None \<and>
      consecutive_fails (snd (scrape_all tr ex urls st)) =
        (consecutive_fails st + int (length urls)) mod 5 \<and>
      cooldowns (added (env st) (env (snd (scrape_all tr ex urls st)))) =
        nat ((consecutive_fails st + int (length urls)) div 5))"
proof (intro conjI allI impI)
  fix st'
  assume a: "scrape_one tr extract_image_url url st = (None, st') \<and>
        map_of (results st') url \<noteq> Some JNull"
  obtain img es where step: "scrape_one tr extract_image_url url st =
       (None, record_result url img (st\<lparr>env := (env st)\<lparr>trace := trace (env st) @ Sleep Delay # es\<rparr>\<rparr>))"
    and es: "list_all (fetch_event url) es"
    and f: "fetch_image_url tr extract_image_url url 0 (log_event (Sleep Delay) (env st)) =
       (Inr img, (env st)\<lparr>trace := trace (env st) @ Sleep Delay # es\<rparr>)"
    by (rule scrape_one_step)
  from a step have st': "st' =
      record_result url img (st\<lparr>env := (env st)\<lparr>trace := trace (env st) @ Sleep Delay # es\<rparr>\<rparr>)"
    by simp
  with a have "to_json img \<noteq> JNull"
    by (simp add: update_conv')
  then obtain u where u: "img = Some u"
    by (cases img) (simp_all add: to_json_def)
  from fetch_image_url_value [of tr extract_image_url url 0 "log_event (Sleep Delay) (env st)" u] f u
  obtain html where "extract_image_url html = Inr (Some u)"
    by auto
  with extract_image_url_result [of html] have "u \<noteq> []"
    by auto
  with u have t: "truthy img"
    by (simp add: truthy_def)
  have "trace (env st') = trace (env st) @ (Sleep Delay # es @
        (if (completed st + 1) mod BATCH_SAVE_EVERY = 0
         then [Flush (AList.update url (to_json img) (results st))] else []))"
    using t by (simp add: st' record_result_env)
  then have "added (env st) (env st') = Sleep Delay # es @
        (if (completed st + 1) mod BATCH_SAVE_EVERY = 0
         then [Flush (AList.update url (to_json img) (results st))] else [])"
    by (rule added_append)
  then show "consecutive_fails st' = 0" "cooldowns (added (env st) (env st')) = 0"
    using t fetch_event_cooldowns [OF es]
    by (simp_all add: st' record_result_consecutive_fails)
next
  assume a: "0 \<le> consecutive_fails st \<and> consecutive_fails st < 5 \<and>
    (\<forall>u\<in>set urls. \<forall>w. fst (fetch_image_url tr ex u 0 w) = Inr None)"
  then have "\<forall>u\<in>set urls. \<forall>w. fst (fetch_image_url tr ex u 0 w) = Inr None"
    "0 \<le> consecutive_fails st" "consecutive_fails st < 5"
    by simp_all
  from scrape_all_nulls [OF this] obtain st' es where st':
    "scrape_all tr ex urls st = (None, st')"
    "trace (env st') = trace (env st) @ es"
    "consecutive_fails st' = (consecutive_fails st + int (length urls)) mod 5"
    "cooldowns es = nat ((consecutive_fails st + int (length urls)) div 5)"
    by blast
  from st'(2) have "added (env st) (env st') = es"
    by (rule added_append)
  with st' show "fst (scrape_all tr ex urls st) = None"
    "consecutive_fails (snd (scrape_all tr ex urls st)) =
        (consecutive_fails st + int (length urls)) mod 5"
    "cooldowns (added (env st) (env (snd (scrape_all tr ex urls st)))) =
        nat ((consecutive_fails st + int (length urls)) div 5)"
    by simp_all
qed

theorem cooldown_at_threshold_witness:
  "consecutive_fails (snd (scrape_one example_transport extract_image_url ''http://x/a''
      \<lparr>results = [], completed = 7, found = 2, consecutive_fails = 3,
       env = \<lparr>catalog_file = None, output_file = None, trace = []\<rparr>\<rparr>)) = 0 \<and>
   consecutive_fails (snd (scrape_all (\<lambda>t u. Inl (OtherException ''URLError'')) extract_image_url
      (take 5 example_targets)
      \<lparr>results = [], completed = 0, found = 0, consecutive_fails = 0,
       env = \<lparr>catalog_file = None, output_file = None, trace = []\<rparr>\<rparr>)) = 0 \<and>
   cooldowns (added \<lparr>catalog_file = None, output_file = None, trace = []\<rparr>
      (env (snd (scrape_all (\<lambda>t u. Inl (OtherException ''URLError'')) extract_image_url
        (take 5 example_targets)
        \<lparr>results = [], completed = 0, found = 0, consecutive_fails = 0,
         env = \<lparr>catalog_file = None, output_file = None, trace = []\<rparr>\<rparr>)))) = 1 \<and>
   consecutive_fails (snd (scrape_all (\<lambda>t u. Inl (OtherException ''URLError'')) extract_image_url
      (take 6 example_targets)
      \<lparr>results = [], completed = 0, found = 0, consecutive_fails = 0,
       env = \<lparr>catalog_file = None, output_file = None, trace = []\<rparr>\<rparr>)) = 1 \<and>
   cooldowns (added \<lparr>catalog_file = None, output_file = None, trace = []\<rparr>
      (env (snd (scrape_all (\<lambda>t u. Inl (OtherException ''URLError'')) extract_image_url
        (take 6 example_targets)
        \<lparr>results = [], completed = 0, found = 0, consecutive_fails = 0,
         env = \<lparr>catalog_file = None, output_file = None, trace = []\<rparr>\<rparr>)))) = 1 \<and>
   cooldowns (added \<lparr>catalog_file = None, output_file = None, trace = []\<rparr>
      (env (snd (scrape_all (\<lambda>t u. Inl (OtherException ''URLError'')) extract_image_url
        (take 10 example_targets)
        \<lparr>results = [], completed = 0, found = 0, consecutive_fails = 0,
         env = \<lparr>catalog_file = None, output_file = None, trace = []\<rparr>\<rparr>)))) = 2"
proof -
  let ?down = "\<lambda>t u. Inl (OtherException ''URLError'') :: exc + string"
  let ?st0 = "\<lparr>results = [], completed = 0, found = 0, consecutive_fails = 0,
       env = \<lparr>catalog_file = None, output_file = None, trace = []\<rparr>\<rparr>"
  let ?st3 = "\<lparr>results = [], completed = 7, found = 2, consecutive_fails = 3,
       env = \<lparr>catalog_file = None, output_file = None, trace = []\<rparr>\<rparr>"
  have turn: "scrape_one example_transport extract_image_url ''http://x/a'' ?st3 =
      (None, \<lparr>results = [(''http://x/a'', JStr ''https://media.parfumo.com/p.jpg'')],
         completed = 8, found = 3, consecutive_fails = 0,
         env = \<lparr>catalog_file = None, output_file = None,
            trace = [Sleep Delay, FetchRequest ''http://x/a'' 0]\<rparr>\<rparr>)"
    by code_simp
  have found: "scrape_one example_transport extract_image_url ''http://x/a'' ?st3 =
      (None, snd (scrape_one example_transport extract_image_url ''http://x/a'' ?st3)) \<and>
      map_of (results (snd (scrape_one example_transport extract_image_url ''http://x/a'' ?st3)))
        ''http://x/a'' \<noteq> Some JNull"
    by (simp add: turn)
  have nulls: "0 \<le> consecutive_fails ?st0 \<and> consecutive_fails ?st0 < 5 \<and>
      (\<forall>u\<in>set urls. \<forall>w. fst (fetch_image_url ?down extract_image_url u 0 w) = Inr None)"
    for urls
    by (simp add: fetch_image_url.simps [of ?down] fetch_attempt_def Let_def)
  have 1: "consecutive_fails
      (snd (scrape_one example_transport extract_image_url ''http://x/a'' ?st3)) = 0"
    using cooldown_at_threshold [where tr = example_transport and url = "''http://x/a''" and st = ?st3,
        THEN conjunct1, rule_format, OF found]
    by simp
  have 5: "consecutive_fails (snd (scrape_all ?down extract_image_url
        (take 5 example_targets) ?st0)) = 0 \<and>
      cooldowns (added (env ?st0) (env (snd (scrape_all ?down extract_image_url
        (take 5 example_targets) ?st0)))) = 1"
    using cooldown_at_threshold [where st = ?st0 and urls = "take 5 example_targets" and tr = ?down
        and ex = extract_image_url,
        THEN conjunct2, rule_format, OF nulls]
    by (simp add: example_targets_def)
  have 6: "consecutive_fails (snd (scrape_all ?down extract_image_url
        (take 6 example_targets) ?st0)) = 1 \<and>
      cooldowns (added (env ?st0) (env (snd (scrape_all ?down extract_image_url
        (take 6 example_targets) ?st0)))) = 1"
    using cooldown_at_threshold [where st = ?st0 and urls = "take 6 example_targets" and tr = ?down
        and ex = extract_image_url,
        THEN conjunct2, rule_format, OF nulls]
    by (simp add: example_targets_def)
  have 10: "cooldowns (added (env ?st0) (env (snd (scrape_all ?down extract_image_url
        (take 10 example_targets) ?st0)))) = 2"
    using cooldown_at_threshold [where st = ?st0 and urls = "take 10 example_targets" and tr = ?down
        and ex = extract_image_url,
        THEN conjunct2, rule_format, OF nulls]
    by (simp add: example_targets_def)
  from 1 5 6 10 show ?thesis by simp
qed

subsection \<open>A second run\<close>

text \<open>
  C2, as the program has it. The statement that a second run over the same catalogue, with
  the store of the first run, has an empty pending list and fetches nothing fails for a
  target whose fetch gave null: the first run stores null for it, and the second run
  takes a target with a stored null for pending again and fetches it (the program prints
  that it "will retry failed ones"). Here the first run finds the image of
  \<^verbatim>\<open>http://x/a\<close> and fails on \<^verbatim>\<open>http://x/b\<close>; the second run has \<^verbatim>\<open>http://x/b\<close>
  pending and sends one request for it.
\<close>

theorem resume_idempotence_counterexample:
  "main example_transport extract_image_url (\<lambda>n. 0)
     \<lparr>catalog_file = Some (Doc [\<lparr>canonical_url = Some ''http://x/a''\<rparr>,
                                \<lparr>canonical_url = Some ''http://x/b''\<rparr>]),
      output_file = None, trace = []\<rparr> =
   (None,
     \<lparr>catalog_file = Some (Doc [\<lparr>canonical_url = Some ''http://x/a''\<rparr>,
                                \<lparr>canonical_url = Some ''http://x/b''\<rparr>]),
      output_file = Some (Doc (JObj [(''http://x/b'', JNull),
         (''http://x/a'', JStr ''https://media.parfumo.com/p.jpg'')])),
      trace = [WarmupRequest, Sleep Settle, Sleep Delay, FetchRequest ''http://x/b'' 0,
         Sleep Delay, FetchRequest ''http://x/a'' 0,
         Flush [(''http://x/b'', JNull),
           (''http://x/a'', JStr ''https://media.parfumo.com/p.jpg'')]]\<rparr>) \<and>
   to_scrape (\<lambda>n. 0)
     (catalog_urls [\<lparr>canonical_url = Some ''http://x/a''\<rparr>, \<lparr>canonical_url = Some ''http://x/b''\<rparr>])
     (resolved_subset [(''http://x/b'', JNull),
        (''http://x/a'', JStr ''https://media.parfumo.com/p.jpg'')]) = [''http://x/b''] \<and>
   fetches (added
     \<lparr>catalog_file = Some (Doc [\<lparr>canonical_url = Some ''http://x/a''\<rparr>,
                                \<lparr>canonical_url = Some ''http://x/b''\<rparr>]),
      output_file = Some (Doc (JObj [(''http://x/b'', JNull),
         (''http://x/a'', JStr ''https://media.parfumo.com/p.jpg'')])),
      trace = [WarmupRequest, Sleep Settle, Sleep Delay, FetchRequest ''http://x/b'' 0,
         Sleep Delay, FetchRequest ''http://x/a'' 0,
         Flush [(''http://x/b'', JNull),
           (''http://x/a'', JStr ''https://media.parfumo.com/p.jpg'')]]\<rparr>
     (snd (main example_transport extract_image_url (\<lambda>n. 0)
       \<lparr>catalog_file = Some (Doc [\<lparr>canonical_url = Some ''http://x/a''\<rparr>,
                                  \<lparr>canonical_url = Some ''http://x/b''\<rparr>]),
        output_file = Some (Doc (JObj [(''http://x/b'', JNull),
           (''http://x/a'', JStr ''https://media.parfumo.com/p.jpg'')])),
        trace = [WarmupRequest, Sleep Settle, Sleep Delay, FetchRequest ''http://x/b'' 0,
           Sleep Delay, FetchRequest ''http://x/a'' 0,
           Flush [(''http://x/b'', JNull),
             (''http://x/a'', JStr ''https://media.parfumo.com/p.jpg'')]]\<rparr>))) = 1"
  by code_simp

text \<open>
  C2, amended. After a run that returned, a second run over the same catalogue with the
  store the first run left has as its pending targets exactly the targets of the
  catalogue that this store maps to null. When the store maps no target of the catalogue
  to null, the pending list is empty and the second run returns at once, whatever the
  transport, the extraction and the shuffle: it leaves the world as it found it, with no
  fetch, no other request and no write.
\<close>

theorem resume_retries_nulls:
  assumes first: "main tr ex rnd w = (None, w1)"
  shows "\<exists>data raw. load_catalog w = Inr data \<and> load_catalog w1 = Inr data \<and>
           load_raw w1 = Inr raw \<and>
           set (to_scrape rnd' (catalog_urls data) (resolved_subset raw)) =
             {u \<in> set (catalog_urls data). map_of raw u = Some JNull} \<and>
           ((\<forall>u\<in>set (catalog_urls data). map_of raw u \<noteq> Some JNull) \<longrightarrow>
              to_scrape rnd' (catalog_urls data) (resolved_subset raw) = [] \<and>
              main tr' ex' rnd' w1 = (None, w1))"
proof -
  obtain data where cat: "load_catalog w = Inr data"
    using first by (cases "load_catalog w") (simp_all add: main_def)
  obtain existing where lex: "load_existing w = Inr existing"
    using first cat by (cases "load_existing w") (simp_all add: main_def)
  obtain raw0 where raw0: "load_raw w = Inr raw0" "existing = resolved_subset raw0"
    using load_existing_raw [OF lex] by blast
  have d0: "distinct (map fst raw0)"
    using raw0(1) by (rule load_raw_distinct)
  define urls where "urls = catalog_urls data"
  define pending where "pending = to_scrape rnd urls existing"
  define st0 where "st0 = \<lparr>results = existing, completed = 0,
      found = int (length existing), consecutive_fails = 0, env = warm_up tr w\<rparr>"
  have key: "\<exists>raw. load_catalog w1 = Inr data \<and> load_raw w1 = Inr raw \<and>
      distinct (map fst raw) \<and> set urls \<subseteq> fst ` set raw"
  proof (cases "pending = []")
    case True
    then have "w1 = w"
      using first main_loaded [OF cat lex, of tr ex rnd] by (simp add: pending_def urls_def)
    moreover have "set urls \<subseteq> fst ` set existing"
      using True to_scrape_set [of rnd urls existing] by (auto simp: pending_def)
    then have "set urls \<subseteq> fst ` set raw0"
      by (auto simp: raw0(2) resolved_subset_def)
    ultimately show ?thesis
      using cat raw0(1) d0 by blast
  next
    case False
    from scrape_all_results [of tr ex pending st0] obtain st' where st':
      "scrape_all tr ex pending st0 = (None, st')"
      "fst ` set (results st') = fst ` set (results st0) \<union> set pending"
      "distinct (map fst (results st0)) \<longrightarrow> distinct (map fst (results st'))"
      "catalog_file (env st') = catalog_file (env st0)"
      by blast
    have w1: "w1 = flush (results st') (env st')"
      using first main_loaded [OF cat lex, of tr ex rnd] False st'(1)
      by (simp add: pending_def urls_def st0_def)
    have "catalog_file w1 = catalog_file w"
      using st'(4) warm_up_files [of tr w] by (simp add: w1 flush_def log_event_def st0_def)
    then have c1: "load_catalog w1 = Inr data"
      using cat by (simp add: load_catalog_def)
    have d': "distinct (map fst (results st'))"
      using st'(3) d0 by (simp add: st0_def raw0(2) resolved_subset_distinct)
    then have r1: "load_raw w1 = Inr (results st')"
      by (simp add: w1 load_raw_flush)
    have "set urls \<subseteq> fst ` set existing \<union> set pending"
      using to_scrape_set [of rnd urls existing] by (auto simp: pending_def)
    then have "set urls \<subseteq> fst ` set (results st')"
      using st'(2) by (simp add: st0_def)
    with c1 r1 d' show ?thesis by blast
  qed
  then obtain raw where raw: "load_catalog w1 = Inr data" "load_raw w1 = Inr raw"
    "distinct (map fst raw)" "set urls \<subseteq> fst ` set raw"
    by blast
  have known: "map_of raw u \<noteq> None" if "u \<in> set urls" for u
    using raw(4) that by (auto simp: map_of_eq_None_iff)
  have pend: "set (to_scrape rnd' urls (resolved_subset raw)) =
      {u \<in> set urls. map_of raw u = Some JNull}"
  proof -
    have "u \<notin> fst ` set (resolved_subset raw) \<longleftrightarrow> map_of raw u = Some JNull"
      if "u \<in> set urls" for u
      using resolved_subset_keys [OF raw(3), of u] known [OF that] by auto
    then show ?thesis
      unfolding to_scrape_set by blast
  qed
  have lex1: "load_existing w1 = Inr (resolved_subset raw)"
    using raw(2) by (simp add: load_existing_def)
  have "to_scrape rnd' urls (resolved_subset raw) = [] \<and> main tr' ex' rnd' w1 = (None, w1)"
    if "\<forall>u\<in>set urls. map_of raw u \<noteq> Some JNull"
  proof -
    from that pend have "set (to_scrape rnd' urls (resolved_subset raw)) = {}"
      by auto
    then have "to_scrape rnd' urls (resolved_subset raw) = []"
      by simp
    then show ?thesis
      using main_loaded [OF raw(1) lex1, of tr' ex' rnd'] by (simp add: urls_def)
  qed
  with cat raw(1,2) pend show ?thesis
    unfolding urls_def by blast
qed

theorem resume_retries_nulls_witness:
  "main example_transport extract_image_url (\<lambda>n. 0)
     \<lparr>catalog_file = Some (Doc [\<lparr>canonical_url = Some ''http://x/a''\<rparr>]),
      output_file = None, trace = []\<rparr> =
   (None,
     \<lparr>catalog_file = Some (Doc [\<lparr>canonical_url = Some ''http://x/a''\<rparr>]),
      output_file = Some (Doc (JObj [(''http://x/a'', JStr ''https://media.parfumo.com/p.jpg'')])),
      trace = [WarmupRequest, Sleep Settle, Sleep Delay, FetchRequest ''http://x/a'' 0,
         Flush [(''http://x/a'', JStr ''https://media.parfumo.com/p.jpg'')]]\<rparr>) \<and>
   main (\<lambda>t u. Inl (HTTPError 429)) extract_image_url (\<lambda>n. 1)
     \<lparr>catalog_file = Some (Doc [\<lparr>canonical_url = Some ''http://x/a''\<rparr>]),
      output_file = Some (Doc (JObj [(''http://x/a'', JStr ''https://media.parfumo.com/p.jpg'')])),
      trace = [WarmupRequest, Sleep Settle, Sleep Delay, FetchRequest ''http://x/a'' 0,
         Flush [(''http://x/a'', JStr ''https://media.parfumo.com/p.jpg'')]]\<rparr> =
   (None,
     \<lparr>catalog_file = Some (Doc [\<lparr>canonical_url = Some ''http://x/a''\<rparr>]),
      output_file = Some (Doc (JObj [(''http://x/a'', JStr ''https://media.parfumo.com/p.jpg'')])),
      trace = [WarmupRequest, Sleep Settle, Sleep Delay, FetchRequest ''http://x/a'' 0,
         Flush [(''http://x/a'', JStr ''https://media.parfumo.com/p.jpg'')]]\<rparr>)"
proof -
  let ?w = "\<lparr>catalog_file = Some (Doc [\<lparr>canonical_url = Some ''http://x/a''\<rparr>]),
      output_file = None, trace = []\<rparr>"
  let ?w1 = "\<lparr>catalog_file = Some (Doc [\<lparr>canonical_url = Some ''http://x/a''\<rparr>]),
      output_file = Some (Doc (JObj [(''http://x/a'', JStr ''https://media.parfumo.com/p.jpg'')])),
      trace = [WarmupRequest, Sleep Settle, Sleep Delay, FetchRequest ''http://x/a'' 0,
         Flush [(''http://x/a'', JStr ''https://media.parfumo.com/p.jpg'')]]\<rparr>"
  have first: "main example_transport extract_image_url (\<lambda>n. 0) ?w = (None, ?w1)"
    by code_simp
  from resume_retries_nulls [OF first, of "\<lambda>n. 1" "\<lambda>t u. Inl (HTTPError 429)" extract_image_url]
  obtain data raw where second: "load_catalog ?w1 = Inr data" "load_raw ?w1 = Inr raw"
    "(\<forall>u\<in>set (catalog_urls data). map_of raw u \<noteq> Some JNull) \<longrightarrow>
       main (\<lambda>t u. Inl (HTTPError 429)) extract_image_url (\<lambda>n. 1) ?w1 = (None, ?w1)"
    by blast
  from second(1) have data: "data = [\<lparr>canonical_url = Some ''http://x/a''\<rparr>]"
    by (simp add: load_catalog_def)
  from second(2) have raw: "raw = [(''http://x/a'', JStr ''https://media.parfumo.com/p.jpg'')]"
    by (simp add: load_raw_def dict_of_pairs_def)
  have "\<forall>u\<in>set (catalog_urls data). map_of raw u \<noteq> Some JNull"
    by (simp add: data raw catalog_urls_def)
  with second(3) first show ?thesis by blast
qed


end
